theory Spec2Isabelle
  imports Main
begin

section \<open>Strings\<close>

text \<open>
  A Python \<open>str\<close> is a sequence of code points. It is modelled as a \<^typ>\<open>string\<close>, one
  \<^typ>\<open>char\<close> per code point, which covers the code points below 256. The character classes
  below are those of Python 3 on that range: \<open>str.isspace\<close> (also what \<open>\s\<close> and
  \<open>str.strip()\<close> use), the decimal digits of \<open>\d\<close>, and the word characters of \<open>\w\<close>
  (alphanumerics and the underscore).
\<close>

definition is_space :: "char \<Rightarrow> bool" where
  "is_space c =
     (let n = (of_char c :: nat)
      in (9 \<le> n \<and> n \<le> 13) \<or> (28 \<le> n \<and> n \<le> 32) \<or> n = 133 \<or> n = 160)"

definition is_digit :: "char \<Rightarrow> bool" where
  "is_digit c = (let n = (of_char c :: nat) in 48 \<le> n \<and> n \<le> 57)"

definition is_word :: "char \<Rightarrow> bool" where
  "is_word c =
     (let n = (of_char c :: nat)
      in (48 \<le> n \<and> n \<le> 57) \<or> (65 \<le> n \<and> n \<le> 90) \<or> n = 95 \<or> (97 \<le> n \<and> n \<le> 122)
         \<or> n = 170 \<or> n = 178 \<or> n = 179 \<or> n = 181 \<or> n = 185 \<or> n = 186
         \<or> (188 \<le> n \<and> n \<le> 190) \<or> (192 \<le> n \<and> n \<le> 214) \<or> (216 \<le> n \<and> n \<le> 246)
         \<or> 248 \<le> n)"

text \<open>Case folding as \<open>re.IGNORECASE\<close> needs it for the letters of the literal \<open>Chapter\<close>.\<close>

definition lower_ascii :: "char \<Rightarrow> char" where
  "lower_ascii c =
     (let n = (of_char c :: nat) in if 65 \<le> n \<and> n \<le> 90 then char_of (n + 32) else c)"

definition newline :: char where
  "newline = CHR 0x0A"

text \<open>\<open>sub in s\<close>: the substring test.\<close>

fun contains :: "string \<Rightarrow> string \<Rightarrow> bool" where
  "contains sub [] = (sub = [])"
| "contains sub (c # cs) = (take (length sub) (c # cs) = sub \<or> contains sub cs)"

text \<open>
  \<open>s.split(sep)\<close>: the pieces between the occurrences of \<open>sep\<close>, found from left to right
  without overlap. Python raises \<open>ValueError\<close> for an empty separator; the two call sites pass
  the literals \<open>"[PAGE_"\<close> and \<open>"\n\n"\<close>, and an empty separator is never found here.
\<close>

function split_str :: "string \<Rightarrow> string \<Rightarrow> string list" where
  "split_str sep [] = [[]]"
| "split_str sep (c # cs) =
     (if sep \<noteq> [] \<and> take (length sep) (c # cs) = sep
      then [] # split_str sep (drop (length sep) (c # cs))
      else (case split_str sep cs of
              [] \<Rightarrow> [[c]]
            | p # ps \<Rightarrow> (c # p) # ps))"
  by pat_completeness auto
termination
  by (relation "measure (\<lambda>(sep, s). length s)") auto

text \<open>\<open>s.split(sep, 1)\<close>: at most one split, at the first occurrence of \<open>sep\<close>.\<close>

fun split_once :: "string \<Rightarrow> string \<Rightarrow> string list" where
  "split_once sep [] = [[]]"
| "split_once sep (c # cs) =
     (if sep \<noteq> [] \<and> take (length sep) (c # cs) = sep
      then [[], drop (length sep) (c # cs)]
      else (case split_once sep cs of
              [] \<Rightarrow> [[c]]
            | p # ps \<Rightarrow> (c # p) # ps))"

text \<open>\<open>s.strip()\<close>: leading and trailing whitespace removed.\<close>

definition strip :: "string \<Rightarrow> string" where
  "strip s = rev (dropWhile is_space (rev (dropWhile is_space s)))"

text \<open>\<open>str(n)\<close> for a non-negative integer, as the f-strings format page numbers and ids.\<close>

fun digits_of :: "nat \<Rightarrow> nat \<Rightarrow> string" where
  "digits_of 0 n = []"
| "digits_of (Suc fuel) n =
     (if n < 10 then [char_of (48 + n)]
      else digits_of fuel (n div 10) @ [char_of (48 + n mod 10)])"

definition str_nat :: "nat \<Rightarrow> string" where
  "str_nat n = digits_of (Suc n) n"

section \<open>Regular expressions\<close>

text \<open>
  Python's \<open>re\<close> is a backtracking matcher. A greedy repetition \<open>x+\<close> or \<open>x*\<close> of a character
  class first takes the longest run and gives characters back one at a time while the rest
  of the pattern fails: \<open>try_down lo k f\<close> tries the continuation \<open>f\<close> with \<open>k\<close>, \<open>k - 1\<close>,
  ..., \<open>lo\<close> repetitions, in that order, and returns the first success.
\<close>

primrec try_down :: "nat \<Rightarrow> nat \<Rightarrow> (nat \<Rightarrow> 'a option) \<Rightarrow> 'a option" where
  "try_down lo 0 f = (if lo = 0 then f 0 else None)"
| "try_down lo (Suc k) f =
     (if Suc k < lo then None
      else (case f (Suc k) of
              Some r \<Rightarrow> Some r
            | None \<Rightarrow> try_down lo k f))"

definition run_length :: "(char \<Rightarrow> bool) \<Rightarrow> string \<Rightarrow> nat" where
  "run_length P s = length (takeWhile P s)"

text \<open>
  \<open>(.*?)(?=\n)\<close>: the lazy group grows over characters other than the newline (which \<open>.\<close>
  does not match) until the lookahead sees a newline; it fails when the text ends first.
  The result is the captured group.
\<close>

definition lazy_until_newline :: "string \<Rightarrow> string option" where
  "lazy_until_newline s =
     (if newline \<in> set s then Some (takeWhile (\<lambda>c. c \<noteq> newline) s) else None)"


text \<open>
  A matcher is given the character before the position (for \<open>\b\<close> and \<open>(?<!\w)\<close>) and the
  text from the position on; it returns the length of the match and a payload. \<open>finditer\<close>
  scans from left to right: where the pattern matches, the search continues after the match;
  elsewhere it moves one character on. Every pattern of this program matches at least one
  character, so the empty-match rule of \<open>re\<close> plays no role; a length that is zero or
  exceeds the text is treated as no match.
\<close>

type_synonym 'a matcher = "char option \<Rightarrow> string \<Rightarrow> (nat \<times> 'a) option"

function finditer :: "'a matcher \<Rightarrow> char option \<Rightarrow> string \<Rightarrow> 'a list" where
  "finditer m prev [] = []"
| "finditer m prev (c # cs) =
     (case m prev (c # cs) of
        None \<Rightarrow> finditer m (Some c) cs
      | Some (n, g) \<Rightarrow>
          if 0 < n \<and> n \<le> length (c # cs)
          then g # finditer m (Some ((c # cs) ! (n - 1))) (drop n (c # cs))
          else finditer m (Some c) cs)"
  by pat_completeness auto
termination
  by (relation "measure (\<lambda>(m, prev, s). length s)") auto

text \<open>
  The chapter pattern of the builder, \<open>Chapter\s+\d+[.:]\s*(.*?)(?=\n)\<close> with
  \<open>re.IGNORECASE\<close>; the payload is \<open>match.group(1)\<close>.
\<close>

definition chapter_re :: "string matcher" where
  "chapter_re prev s =
     (if map lower_ascii (take 7 s) \<noteq> ''chapter'' then None
      else let r1 = drop 7 s in
        try_down 1 (run_length is_space r1) (\<lambda>k1.
          let r2 = drop k1 r1 in
          try_down 1 (run_length is_digit r2) (\<lambda>k2.
            (case drop k2 r2 of
               [] \<Rightarrow> None
             | c # r4 \<Rightarrow>
                 if c = CHR ''.'' \<or> c = CHR '':''
                 then try_down 0 (run_length is_space r4) (\<lambda>k3.
                        (case lazy_until_newline (drop k3 r4) of
                           None \<Rightarrow> None
                         | Some t \<Rightarrow> Some (7 + k1 + k2 + 1 + k3 + length t, t)))
                 else None))))"

text \<open>
  The section pattern of the builder, \<open>(?<!\w)\d+\.\d+\s+(.*?)(?=\n)\<close>, case-sensitive;
  the payload is \<open>match.group(1)\<close>.
\<close>

definition section_re :: "string matcher" where
  "section_re prev s =
     (if (case prev of None \<Rightarrow> False | Some p \<Rightarrow> is_word p) then None
      else
        try_down 1 (run_length is_digit s) (\<lambda>k1.
          (case drop k1 s of
             [] \<Rightarrow> None
           | c # r2 \<Rightarrow>
               if c = CHR ''.''
               then try_down 1 (run_length is_digit r2) (\<lambda>k2.
                      let r3 = drop k2 r2 in
                      try_down 1 (run_length is_space r3) (\<lambda>k3.
                        (case lazy_until_newline (drop k3 r3) of
                           None \<Rightarrow> None
                         | Some t \<Rightarrow> Some (k1 + 1 + k2 + k3 + length t, t))))
               else None)))"





section \<open>The node model\<close>

text \<open>
  \<open>TextNode\<close> is a dataclass; its objects are shared between the tree (through the
  \<open>children\<close> lists) and the processor's \<open>node_map\<close>, and are mutated in place. A node is
  identified here with its \<open>node_id\<close>: \<open>uuid4()\<close> is modelled as a supply of identifiers that
  never repeats, the k-th identifier issued being the number k. A reference to a node is
  its identifier, a \<open>children\<close> list holds identifiers, and the map from identifiers to
  node records is both the heap of node objects and the \<open>node_map\<close> dictionary (every node
  is entered into \<open>node_map\<close> as soon as it is created, and no entry is ever removed).
\<close>

record TextNode =
  title :: string
  content :: "string option"
  node_type :: string
  node_id :: nat
  parent_id :: "nat option"
  children :: "nat list"
  page_number :: "nat list"
  metadata :: "(string \<times> string) list"

datatype level = INFO | WARNING | ERROR

datatype error =
    ValueError string
  | FileNotFoundError string
  | AttributeError string
  | OSError string
  | RecursionError

text \<open>\<open>str(e)\<close>, as the log messages embed it.\<close>

fun str_error :: "error \<Rightarrow> string" where
  "str_error (ValueError m) = m"
| "str_error (FileNotFoundError m) = m"
| "str_error (AttributeError m) = m"
| "str_error (OSError m) = m"
| "str_error RecursionError = ''maximum recursion depth exceeded''"

text \<open>
  A \<open>TextbookProcessor\<close> with its two fields. \<open>uuid_count\<close> (the number of identifiers
  issued so far) and \<open>logs\<close> (the lines sent to the \<open>logging\<close> module) are the two pieces of
  global state the methods touch; they are threaded through with the processor.
\<close>

record processor =
  root :: "nat option"
  node_map :: "nat \<rightharpoonup> TextNode"
  uuid_count :: nat
  logs :: "(level \<times> string) list"

text \<open>\<open>TextbookProcessor.__init__\<close>, in a process that has issued no identifier yet.\<close>

definition init_processor :: processor where
  "init_processor = \<lparr>root = None, node_map = Map.empty, uuid_count = 0, logs = []\<rparr>"

definition logging :: "level \<Rightarrow> string \<Rightarrow> processor \<Rightarrow> processor" where
  "logging lv msg p = p\<lparr>logs := logs p @ [(lv, msg)]\<rparr>"

text \<open>
  \<open>add_node\<close>. The parameter \<open>page_number\<close> of the source is never read and is left out.
  The result is the reference to the new node.
\<close>

definition add_node ::
  "nat \<Rightarrow> string \<Rightarrow> string option \<Rightarrow> string \<Rightarrow> processor \<Rightarrow> (error + nat) \<times> processor" where
  "add_node parent title' content' node_type' p =
     (case node_map p parent of
        None \<Rightarrow>
          (Inl (ValueError (''Parent node '' @ str_nat parent @ '' not found'')),
           logging ERROR (''Parent node '' @ str_nat parent @ '' not found.'') p)
      | Some parent_node \<Rightarrow>
          let nid = uuid_count p;
              new_node = \<lparr>title = title', content = content', node_type = node_type',
                          node_id = nid, parent_id = Some parent, children = [],
                          page_number = [], metadata = []\<rparr>;
              m1 = (node_map p)(parent \<mapsto> parent_node\<lparr>children := children parent_node @ [nid]\<rparr>);
              m2 = m1(nid \<mapsto> new_node)
          in (Inr nid, p\<lparr>node_map := m2, uuid_count := Suc nid\<rparr>))"

text \<open>\<open>node.page_number.append(n)\<close> on a node reference.\<close>

definition append_page :: "nat \<Rightarrow> nat \<Rightarrow> processor \<Rightarrow> processor" where
  "append_page node n p =
     (case node_map p node of
        None \<Rightarrow> p
      | Some nd \<Rightarrow> p\<lparr>node_map := (node_map p)(node \<mapsto> nd\<lparr>page_number := page_number nd @ [n]\<rparr>)\<rparr>)"

section \<open>The hierarchy builder\<close>



text \<open>
  The local variables of \<open>create_textbook_structure\<close> that live across pages, with the
  processor. An exception raised inside the \<open>try\<close> block of a page leaves every mutation and
  assignment made before it in place, so the loops return the state they reached together
  with the exception, if any.
\<close>

record build =
  proc :: processor
  current_chapter :: "nat option"
  current_section :: "nat option"

text \<open>The loop over the chapter matches of a page (source lines 93 to 100).\<close>

fun chapter_loop :: "string list \<Rightarrow> nat \<Rightarrow> build \<Rightarrow> error option \<times> build" where
  "chapter_loop [] page_num b = (None, b)"
| "chapter_loop (chapter_title # ms) page_num b =
     (case root (proc b) of
        None \<Rightarrow> (Some (AttributeError ''NoneType object has no attribute node_id''), b)
      | Some r \<Rightarrow>
          (case add_node r (''Chapter: '' @ chapter_title) None ''chapter'' (proc b) of
             (Inl e, p1) \<Rightarrow> (Some e, b\<lparr>proc := p1\<rparr>)
           | (Inr ch, p1) \<Rightarrow>
               chapter_loop ms page_num
                 (b\<lparr>proc := append_page ch page_num p1, current_chapter := Some ch\<rparr>)))"

text \<open>The loop over the section matches (lines 105 to 112), under the chapter \<open>ch\<close>.\<close>

fun section_loop :: "nat \<Rightarrow> string list \<Rightarrow> nat \<Rightarrow> build \<Rightarrow> error option \<times> build" where
  "section_loop ch [] page_num b = (None, b)"
| "section_loop ch (section_title # ms) page_num b =
     (case add_node ch (''Section: '' @ section_title) None ''section'' (proc b) of
        (Inl e, p1) \<Rightarrow> (Some e, b\<lparr>proc := p1\<rparr>)
      | (Inr sec, p1) \<Rightarrow>
          section_loop ch ms page_num
            (b\<lparr>proc := append_page sec page_num p1, current_section := Some sec\<rparr>))"

text \<open>The loop over the paragraphs (lines 118 to 126), under the section \<open>sec\<close>.\<close>

fun leaf_loop :: "nat \<Rightarrow> string list \<Rightarrow> nat \<Rightarrow> build \<Rightarrow> error option \<times> build" where
  "leaf_loop sec [] page_num b = (None, b)"
| "leaf_loop sec (para # ps) page_num b =
     (if length para > 100
      then (case add_node sec (''Content from page '' @ str_nat page_num) (Some para) ''leaf''
                   (proc b) of
              (Inl e, p1) \<Rightarrow> (Some e, b\<lparr>proc := p1\<rparr>)
            | (Inr leaf, p1) \<Rightarrow>
                leaf_loop sec ps page_num (b\<lparr>proc := append_page leaf page_num p1\<rparr>))
      else leaf_loop sec ps page_num b)"

text \<open>\<open>[p.strip() for p in page_text.split('\n\n') if p.strip()]\<close>\<close>

definition paragraphs :: "string \<Rightarrow> string list" where
  "paragraphs page_text =
     map strip (filter (\<lambda>p. strip p \<noteq> []) (split_str [newline, newline] page_text))"

text \<open>
  \<open>page_content.split("]\n", 1)[1] if "]\n" in page_content else page_content\<close>. The index
  1 exists whenever the separator occurs; the other branch of the \<open>case\<close> is never taken.
\<close>

definition page_text_of :: "string \<Rightarrow> string" where
  "page_text_of page_content =
     (if contains [CHR '']'', newline] page_content
      then (case split_once [CHR '']'', newline] page_content of
              _ # t # _ \<Rightarrow> t
            | _ \<Rightarrow> page_content)
      else page_content)"

text \<open>The \<open>except Exception\<close> clause of a page: a warning, and on to the next page.\<close>

definition page_warning :: "nat \<Rightarrow> error \<Rightarrow> build \<Rightarrow> build" where
  "page_warning page_num e b =
     b\<lparr>proc := logging WARNING
                 (''Error processing page '' @ str_nat page_num @ '': '' @ str_error e) (proc b)\<rparr>"

text \<open>The body of the loop over the pages (lines 88 to 130).\<close>

definition process_page :: "nat \<Rightarrow> string \<Rightarrow> build \<Rightarrow> build" where
  "process_page page_num page_content b =
     (let page_text = page_text_of page_content in
      case chapter_loop (finditer chapter_re None page_text) page_num b of
        (Some e, b1) \<Rightarrow> page_warning page_num e b1
      | (None, b1) \<Rightarrow>
          (case (case current_chapter b1 of
                   None \<Rightarrow> (None, b1)
                 | Some ch \<Rightarrow> section_loop ch (finditer section_re None page_text) page_num b1) of
             (Some e, b2) \<Rightarrow> page_warning page_num e b2
           | (None, b2) \<Rightarrow>
               (case (case current_section b2 of
                        None \<Rightarrow> (None, b2)
                      | Some sec \<Rightarrow> leaf_loop sec (paragraphs page_text) page_num b2) of
                  (Some e, b3) \<Rightarrow> page_warning page_num e b3
                | (None, b3) \<Rightarrow> b3)))"

text \<open>\<open>for page_num, page_content in enumerate(pages[1:], 1)\<close>\<close>

fun pages_loop :: "(nat \<times> string) list \<Rightarrow> build \<Rightarrow> build" where
  "pages_loop [] b = b"
| "pages_loop ((page_num, page_content) # ps) b = pages_loop ps (process_page page_num page_content b)"

text \<open>
  \<open>create_textbook_structure\<close>. The content is a \<open>str\<close> already. The source returns
  \<open>self.root\<close>; the model returns the processor, whose \<open>root\<close> field is that reference.
  The result of \<open>detect_structure\<close> is bound to a local variable and not used.
\<close>

definition create_textbook_structure :: "string \<Rightarrow> string \<Rightarrow> processor \<Rightarrow> processor" where
  "create_textbook_structure title' content' p =
     (let rid = uuid_count p;
          root_node = \<lparr>title = title', content = None, node_type = ''root'', node_id = rid,
                       parent_id = None, children = [], page_number = [], metadata = []\<rparr>;
          p1 = p\<lparr>root := Some rid, node_map := (node_map p)(rid \<mapsto> root_node),
                 uuid_count := Suc rid\<rparr>;
          pages = split_str ''[PAGE_'' content'
      in proc (pages_loop (List.enumerate 1 (tl pages))
                 \<lparr>proc = p1, current_chapter = None, current_section = None\<rparr>))"

section \<open>The serializer\<close>

text \<open>
  The nested dictionary that \<open>node_to_dict\<close> builds, with the keys in the order of the
  source: title, content, node_type, node_id, parent_id, page_number, metadata, children.
  The JSON text that \<open>json.dump\<close> makes of it is not modelled.
\<close>

datatype node_dict =
  NodeDict (d_title: string) (d_content: "string option") (d_node_type: string)
    (d_node_id: nat) (d_parent_id: "nat option") (d_page_number: "nat list")
    (d_metadata: "(string \<times> string) list") (d_children: "node_dict list")

text \<open>
  \<open>node_to_dict\<close> recurses over the children. Python bounds the depth of the recursion; the
  first argument is the depth still allowed, and \<open>None\<close> is the \<open>RecursionError\<close> raised when
  it is used up. (A child reference always points to a node; the \<open>None\<close> of a missing node
  is never reached.)
\<close>

fun node_to_dict :: "nat \<Rightarrow> (nat \<rightharpoonup> TextNode) \<Rightarrow> nat \<Rightarrow> node_dict option" where
  "node_to_dict 0 m i = None"
| "node_to_dict (Suc depth) m i =
     (case m i of
        None \<Rightarrow> None
      | Some nd \<Rightarrow>
          (case those (map (node_to_dict depth m) (children nd)) of
             None \<Rightarrow> None
           | Some ds \<Rightarrow>
               Some (NodeDict (title nd) (content nd) (node_type nd) (node_id nd) (parent_id nd)
                       (page_number nd) (metadata nd) ds)))"

section \<open>The batch entry point\<close>

text \<open>
  What the program asks of the operating system and of the libraries is a parameter:
  whether an input path exists and what reading it with the \<open>utf-16\<close> codec gives (the
  text, or the exception raised), \<open>Path(p).stem\<close>, \<open>os.path.join\<close>, whether \<open>os.makedirs\<close>
  and opening a file for writing succeed, and the recursion limit of the interpreter. The
  input files are taken not to change during the run.
\<close>

record env =
  path_exists :: "string \<Rightarrow> bool"
  read_text :: "string \<Rightarrow> error + string"
  stem :: "string \<Rightarrow> string"
  path_join :: "string \<Rightarrow> string \<Rightarrow> string"
  makedirs_ok :: "string \<Rightarrow> bool"
  open_write_ok :: "string \<Rightarrow> bool"
  recursion_limit :: nat

text \<open>
  The state a batch run changes: the processor (with the identifier supply and the log),
  the directories that exist, and the records written, in order.
\<close>

record world =
  wproc :: processor
  dir_exists :: "string \<Rightarrow> bool"
  written :: "(string \<times> node_dict) list"

definition wlog :: "level \<Rightarrow> string \<Rightarrow> world \<Rightarrow> world" where
  "wlog lv msg w = w\<lparr>wproc := logging lv msg (wproc w)\<rparr>"

definition extract_parse_content :: "env \<Rightarrow> string \<Rightarrow> world \<Rightarrow> (error + string) \<times> world" where
  "extract_parse_content e txt_path w =
     (if \<not> path_exists e txt_path
      then (Inl (FileNotFoundError (''Text file '' @ txt_path @ '' not found.'')),
            wlog ERROR (''Text file '' @ txt_path @ '' not found.'') w)
      else (read_text e txt_path, w))"

text \<open>
  \<open>save_to_file\<close>: the file is opened, the dictionary is built and dumped. Any exception is
  logged and raised again; the record counts as written only when all of it succeeded.
\<close>

definition save_failed :: "string \<Rightarrow> error \<Rightarrow> world \<Rightarrow> error option \<times> world" where
  "save_failed filename x w =
     (Some x, wlog ERROR (''Error saving to '' @ filename @ '': '' @ str_error x) w)"

definition save_to_file :: "env \<Rightarrow> string \<Rightarrow> world \<Rightarrow> error option \<times> world" where
  "save_to_file e filename w =
     (if \<not> open_write_ok e filename
      then save_failed filename (OSError (''cannot open '' @ filename)) w
      else (case root (wproc w) of
              None \<Rightarrow> save_failed filename (AttributeError ''NoneType object has no attribute title'') w
            | Some r \<Rightarrow>
                (case node_to_dict (recursion_limit e) (node_map (wproc w)) r of
                   None \<Rightarrow> save_failed filename RecursionError w
                 | Some d \<Rightarrow>
                     (None, wlog INFO (''Structure saved to '' @ filename @ ''.'')
                              (w\<lparr>written := written w @ [(filename, d)]\<rparr>)))))"

definition output_path_of :: "env \<Rightarrow> string \<Rightarrow> string \<Rightarrow> string" where
  "output_path_of e output_dir txt_path =
     path_join e output_dir (stem e txt_path @ ''_structure.json'')"

text \<open>The body of the \<open>try\<close> block of \<open>process_textbooks\<close>, for one path.\<close>

definition process_one :: "env \<Rightarrow> string \<Rightarrow> string \<Rightarrow> world \<Rightarrow> error option \<times> world" where
  "process_one e output_dir txt_path w =
     (if \<not> dir_exists w output_dir \<and> \<not> makedirs_ok e output_dir
      then (Some (OSError (''cannot create '' @ output_dir)), w)
      else
        let w1 = w\<lparr>dir_exists := (dir_exists w)(output_dir := True)\<rparr>;
            w2 = wlog INFO (''Processing textbook '' @ txt_path @ ''...'') w1
        in (case extract_parse_content e txt_path w2 of
              (Inl x, w3) \<Rightarrow> (Some x, w3)
            | (Inr content', w3) \<Rightarrow>
                let title' = stem e txt_path;
                    w4 = wlog INFO (''Building hierarchical structure for '' @ title' @ ''...'') w3;
                    w5 = w4\<lparr>wproc := create_textbook_structure title' content' (wproc w4)\<rparr>
                in (case save_to_file e (output_path_of e output_dir txt_path) w5 of
                      (Some x, w6) \<Rightarrow> (Some x, w6)
                    | (None, w6) \<Rightarrow>
                        (None, wlog INFO (''Textbook '' @ title' @ '' processed successfully.'') w6))))"

text \<open>The loop of \<open>process_textbooks\<close> with its \<open>except Exception\<close> clause.\<close>

fun textbooks_loop :: "env \<Rightarrow> string \<Rightarrow> string list \<Rightarrow> world \<Rightarrow> world" where
  "textbooks_loop e output_dir [] w = w"
| "textbooks_loop e output_dir (txt_path # rest) w =
     (case process_one e output_dir txt_path w of
        (None, w1) \<Rightarrow> textbooks_loop e output_dir rest w1
      | (Some x, w1) \<Rightarrow>
          textbooks_loop e output_dir rest
            (wlog ERROR (''Failed to process '' @ txt_path @ '': '' @ str_error x) w1))"

text \<open>
  \<open>process_textbooks\<close>: one new \<open>TextbookProcessor\<close> for the whole list. The identifier
  supply and the log are the process's and go on from where they are.
\<close>

definition process_textbooks :: "env \<Rightarrow> string list \<Rightarrow> string \<Rightarrow> world \<Rightarrow> world" where
  "process_textbooks e txt_paths output_dir w =
     textbooks_loop e output_dir txt_paths
       (w\<lparr>wproc := (wproc w)\<lparr>root := None, node_map := Map.empty\<rparr>\<rparr>)"

section \<open>Specification vocabulary\<close>

text \<open>
  The definitions of this section are not part of the program; the theorems are stated
  and proved with them.

  \<open>fresh\<close>: no identifier that is still to be issued is in the node index. This is what the
  uniqueness of \<open>uuid4()\<close> gives.
\<close>

definition fresh :: "processor \<Rightarrow> bool" where
  "fresh p = (\<forall>k. uuid_count p \<le> k \<longrightarrow> node_map p k = None)"

text \<open>
  The effect of a successful \<open>add_node\<close> followed by the append of the page number to the
  new node, in one step.
\<close>

definition with_child ::
  "nat \<Rightarrow> string \<Rightarrow> string option \<Rightarrow> string \<Rightarrow> nat \<Rightarrow> processor \<Rightarrow> processor" where
  "with_child parent t c ty n p =
     (case node_map p parent of
        None \<Rightarrow> p
      | Some pn \<Rightarrow>
          p\<lparr>node_map := (node_map p)
                (parent \<mapsto> pn\<lparr>children := children pn @ [uuid_count p]\<rparr>,
                 uuid_count p \<mapsto>
                   \<lparr>title = t, content = c, node_type = ty, node_id = uuid_count p,
                    parent_id = Some parent, children = [], page_number = [n], metadata = []\<rparr>),
             uuid_count := Suc (uuid_count p)\<rparr>)"

text \<open>
  The shape of the trees: a root holds chapters, a chapter holds sections, a section
  holds leaves, a leaf holds nothing; every node but a root is listed by its parent; a
  root has no page number and every other node has one.
\<close>

definition child_type_of :: "string \<Rightarrow> string option" where
  "child_type_of ty =
     (if ty = ''root'' then Some ''chapter''
      else if ty = ''chapter'' then Some ''section''
      else if ty = ''section'' then Some ''leaf''
      else None)"

definition node_ok :: "(nat \<rightharpoonup> TextNode) \<Rightarrow> nat \<Rightarrow> TextNode \<Rightarrow> bool" where
  "node_ok m i nd =
     (node_id nd = i
      \<and> node_type nd \<in> {''root'', ''chapter'', ''section'', ''leaf''}
      \<and> length (page_number nd) = (if node_type nd = ''root'' then 0 else 1)
      \<and> (\<forall>c \<in> set (children nd). \<exists>cn. m c = Some cn
             \<and> child_type_of (node_type nd) = Some (node_type cn) \<and> parent_id cn = Some i)
      \<and> (if node_type nd = ''root'' then parent_id nd = None
         else \<exists>q qn. parent_id nd = Some q \<and> m q = Some qn
                \<and> child_type_of (node_type qn) = Some (node_type nd) \<and> i \<in> set (children qn)))"

definition wf :: "processor \<Rightarrow> bool" where
  "wf p = (fresh p \<and> (\<forall>i nd. node_map p i = Some nd \<longrightarrow> node_ok (node_map p) i nd))"

text \<open>The effect of one of the three loops of a page: children attached one after another.\<close>

fun attach_all ::
  "nat \<Rightarrow> string \<Rightarrow> nat \<Rightarrow> (string \<times> string option) list \<Rightarrow> processor \<Rightarrow> processor" where
  "attach_all parent ty n [] p = p"
| "attach_all parent ty n ((t, c) # xs) p = attach_all parent ty n xs (with_child parent t c ty n p)"

text \<open>
  The cursor after a loop that has created \<open>len\<close> nodes, the first with the identifier
  \<open>k\<close>: the last node created, or the cursor as it was when the loop created nothing.
\<close>

definition last_created :: "nat option \<Rightarrow> nat \<Rightarrow> nat \<Rightarrow> nat option" where
  "last_created cur k len = (if len = 0 then cur else Some (k + len - 1))"

text \<open>
  The effect of a page when no exception is raised: the three loops in turn, each under
  the cursor the loop before it has left.
\<close>

definition page_effect :: "nat \<Rightarrow> string \<Rightarrow> build \<Rightarrow> build" where
  "page_effect n text b =
     (case root (proc b) of
        None \<Rightarrow> b
      | Some r \<Rightarrow>
     (let cs = finditer chapter_re None text;
          p1 = attach_all r ''chapter'' n (map (\<lambda>t. (''Chapter: '' @ t, None)) cs) (proc b);
          ch1 = last_created (current_chapter b) (uuid_count (proc b)) (length cs);
          ss = (case ch1 of None \<Rightarrow> [] | Some ch \<Rightarrow> finditer section_re None text);
          p2 = (case ch1 of
                  None \<Rightarrow> p1
                | Some ch \<Rightarrow>
                    attach_all ch ''section'' n (map (\<lambda>t. (''Section: '' @ t, None)) ss) p1);
          sec2 = last_created (current_section b) (uuid_count p1) (length ss);
          ps = filter (\<lambda>para. length para > 100) (paragraphs text);
          p3 = (case sec2 of
                  None \<Rightarrow> p2
                | Some sec \<Rightarrow>
                    attach_all sec ''leaf'' n
                      (map (\<lambda>para. (''Content from page '' @ str_nat n, Some para)) ps) p2)
      in \<lparr>proc = p3, current_chapter = ch1, current_section = sec2\<rparr>))"

text \<open>
  \<open>cursors_ok\<close>: the node index is well formed, the root of the processor is a root node,
  and the cursors, where set, point to a chapter and to a section.
\<close>

definition has_type :: "processor \<Rightarrow> string \<Rightarrow> nat \<Rightarrow> bool" where
  "has_type p ty i = (\<exists>nd. node_map p i = Some nd \<and> node_type nd = ty)"

definition cursors_ok :: "build \<Rightarrow> bool" where
  "cursors_ok b =
     (wf (proc b)
      \<and> (\<exists>r. root (proc b) = Some r \<and> has_type (proc b) ''root'' r)
      \<and> (\<forall>c. current_chapter b = Some c \<longrightarrow> has_type (proc b) ''chapter'' c)
      \<and> (\<forall>s. current_section b = Some s \<longrightarrow> has_type (proc b) ''section'' s))"

text \<open>
  The processors the program reaches: one processor, on which
  \<open>create_textbook_structure\<close> runs for one document (title and content) after another,
  as the loop of \<open>process_textbooks\<close> does.
\<close>

definition processor_after :: "(string \<times> string) list \<Rightarrow> processor" where
  "processor_after docs =
     foldl (\<lambda>p (title', content'). create_textbook_structure title' content' p) init_processor docs"

text \<open>The build state with which the loop over the pages starts.\<close>

definition start_build :: "string \<Rightarrow> processor \<Rightarrow> build" where
  "start_build title' p =
     \<lparr>proc = p\<lparr>root := Some (uuid_count p),
                node_map := (node_map p)(uuid_count p \<mapsto>
                  \<lparr>title = title', content = None, node_type = ''root'', node_id = uuid_count p,
                   parent_id = None, children = [], page_number = [], metadata = []\<rparr>),
                uuid_count := Suc (uuid_count p)\<rparr>,
      current_chapter = None, current_section = None\<rparr>"

text \<open>A node with every identifier in it moved up by \<open>k\<close>.\<close>

definition shift_node :: "nat \<Rightarrow> TextNode \<Rightarrow> TextNode" where
  "shift_node k nd =
     nd\<lparr>node_id := k + node_id nd, parent_id := map_option ((+) k) (parent_id nd),
        children := map ((+) k) (children nd)\<rparr>"

text \<open>
  A document of two pages for the examples: a chapter and a section on the first page; on
  the second page a new chapter, no section, a paragraph of 101 characters and one of 100.
  \<open>after_first_page\<close> is the build state between the two pages.
\<close>

definition page_one :: string where
  "page_one = ''1]\<newline>Chapter 1: A\<newline>1.1 S\<newline>''"

definition page_two :: string where
  "page_two =
     ''2]\<newline>Chapter 2: B\<newline>\<newline>'' @ replicate 101 (CHR ''x'') @ ''\<newline>\<newline>''
       @ replicate 100 (CHR ''y'') @ ''\<newline>''"

definition two_page_text :: string where
  "two_page_text = ''[PAGE_'' @ page_one @ ''[PAGE_'' @ page_two"

definition after_first_page :: build where
  "after_first_page = pages_loop (List.enumerate 1 [page_one]) (start_build ''T'' init_processor)"

text \<open>The input of the single chapter/section scenario of the specification.\<close>

definition scenario_text :: string where
  "scenario_text =
     ''[PAGE_1]\<newline>Chapter 1: Intro\<newline>1. Overview\<newline>This is a long enough paragraph that exceeds one hundred characters in total length to qualify as a leaf node under the rules described above.\<newline>''"

definition scenario_page :: string where
  "scenario_page =
     ''1]\<newline>Chapter 1: Intro\<newline>1. Overview\<newline>This is a long enough paragraph that exceeds one hundred characters in total length to qualify as a leaf node under the rules described above.\<newline>''"

text \<open>
  \<open>keeps_nodes p p'\<close>: every node of \<open>p\<close> is still there in \<open>p'\<close>, the same but for its list
  of children. \<open>created_on_page n p lo hi\<close>: the nodes with the identifiers from \<open>lo\<close> up to
  \<open>hi\<close> carry the page number \<open>n\<close>, and the leaves among them the title of that page.
\<close>

definition keeps_nodes :: "processor \<Rightarrow> processor \<Rightarrow> bool" where
  "keeps_nodes p p' =
     (\<forall>j jn. node_map p j = Some jn \<longrightarrow> (\<exists>cs. node_map p' j = Some (jn\<lparr>children := cs\<rparr>)))"


text \<open>A document whose only page marker carries the number 7.\<close>

definition marker_seven_text :: string where
  "marker_seven_text = ''[PAGE_7]\<newline>Chapter 1: A\<newline>''"

text \<open>
  \<open>sim k m0 p q\<close>: the processor \<open>p\<close> is the processor \<open>q\<close> with every identifier moved up
  by \<open>k\<close>, on top of the older nodes \<open>m0\<close>, which have the identifiers below \<open>k\<close>.
\<close>

definition sim :: "nat \<Rightarrow> (nat \<rightharpoonup> TextNode) \<Rightarrow> processor \<Rightarrow> processor \<Rightarrow> bool" where
  "sim k m0 p q =
     (uuid_count p = k + uuid_count q
      \<and> root p = map_option ((+) k) (root q)
      \<and> (\<forall>i. node_map p (k + i) = map_option (shift_node k) (node_map q i))
      \<and> (\<forall>j. j < k \<longrightarrow> node_map p j = m0 j))"

definition sim_build :: "nat \<Rightarrow> (nat \<rightharpoonup> TextNode) \<Rightarrow> build \<Rightarrow> build \<Rightarrow> bool" where
  "sim_build k m0 bp bq =
     (sim k m0 (proc bp) (proc bq)
      \<and> current_chapter bp = map_option ((+) k) (current_chapter bq)
      \<and> current_section bp = map_option ((+) k) (current_section bq))"

text \<open>
  The depth of the subtree under a node of each type, which bounds the recursion of
  \<open>node_to_dict\<close>.
\<close>

definition rank :: "string \<Rightarrow> nat" where
  "rank ty = (if ty = ''root'' then 4 else if ty = ''chapter'' then 3
              else if ty = ''section'' then 2 else 1)"

text \<open>
  For the batch run. \<open>ready_for\<close>: the output directory exists or can be created.
  \<open>doc_ok\<close>: nothing that a document needs fails, that is, the output directory is ready,
  the input file exists and can be read, and its output file can be opened for writing.
  \<open>failure_logged\<close>: the log holds the line that the \<open>except\<close> clause of the batch loop
  writes for the path. \<open>logs_extend\<close>: the log has only grown.
\<close>

definition ready_for :: "env \<Rightarrow> string \<Rightarrow> world \<Rightarrow> bool" where
  "ready_for e output_dir w = (dir_exists w output_dir \<or> makedirs_ok e output_dir)"

definition doc_ok :: "env \<Rightarrow> string \<Rightarrow> bool \<Rightarrow> string \<Rightarrow> bool" where
  "doc_ok e output_dir ready txt_path =
     (ready \<and> path_exists e txt_path
      \<and> (case read_text e txt_path of Inl x \<Rightarrow> False | Inr content' \<Rightarrow> True)
      \<and> open_write_ok e (output_path_of e output_dir txt_path))"

definition logs_extend :: "world \<Rightarrow> world \<Rightarrow> bool" where
  "logs_extend w w' = (\<exists>extra. logs (wproc w') = logs (wproc w) @ extra)"

definition failure_logged :: "string \<Rightarrow> world \<Rightarrow> bool" where
  "failure_logged txt_path w =
     (\<exists>x. (ERROR, ''Failed to process '' @ txt_path @ '': '' @ str_error x) \<in> set (logs (wproc w)))"

text \<open>
  The records of a batch run, spelled out. \<open>shift_dict k\<close> moves every identifier of a
  record up by \<open>k\<close>. \<open>document_tree\<close> is the record of the tree that the builder makes of
  the text of an input file on a new processor. \<open>ids_issued\<close> is the number of identifiers
  that a path takes from the supply: those of its tree when the builder runs for it, none
  when the path fails before. \<open>batch_records\<close> lists, for the paths in turn, the record of
  each document for which nothing fails, under the identifiers that are free at its turn.
\<close>

primrec shift_dict :: "nat \<Rightarrow> node_dict \<Rightarrow> node_dict" where
  "shift_dict k (NodeDict t c ty i pid pn md ds) =
     NodeDict t c ty (k + i) (map_option ((+) k) pid) pn md (map (shift_dict k) ds)"

definition document_tree :: "env \<Rightarrow> string \<Rightarrow> node_dict option" where
  "document_tree e txt_path =
     (case read_text e txt_path of
        Inl x \<Rightarrow> None
      | Inr content' \<Rightarrow>
          node_to_dict (recursion_limit e)
            (node_map (create_textbook_structure (stem e txt_path) content' init_processor)) 0)"

definition ids_issued :: "env \<Rightarrow> bool \<Rightarrow> string \<Rightarrow> nat" where
  "ids_issued e ready txt_path =
     (if ready \<and> path_exists e txt_path
      then (case read_text e txt_path of
              Inl x \<Rightarrow> 0
            | Inr content' \<Rightarrow>
                uuid_count (create_textbook_structure (stem e txt_path) content' init_processor))
      else 0)"

fun batch_records :: "env \<Rightarrow> string \<Rightarrow> bool \<Rightarrow> nat \<Rightarrow> string list \<Rightarrow> (string \<times> node_dict) list" where
  "batch_records e output_dir ready u [] = []"
| "batch_records e output_dir ready u (txt_path # rest) =
     (if doc_ok e output_dir ready txt_path
      then (case document_tree e txt_path of
              None \<Rightarrow> []
            | Some d \<Rightarrow> [(output_path_of e output_dir txt_path, shift_dict u d)])
      else [])
     @ batch_records e output_dir ready (u + ids_issued e ready txt_path) rest"

text \<open>
  An environment and a starting state for the examples: every path exists but
  \<open>missing.txt\<close>, the file \<open>c.txt\<close> holds the document of two pages and every other file
  the document with the marker 7, and nothing else fails.
\<close>

definition example_env :: env where
  "example_env =
     \<lparr>path_exists = (\<lambda>p. p \<noteq> ''missing.txt''),
      read_text = (\<lambda>p. if p = ''c.txt'' then Inr two_page_text else Inr marker_seven_text),
      stem = (\<lambda>p. take (length p - 4) p),
      path_join = (\<lambda>d f. d @ ''/'' @ f),
      makedirs_ok = (\<lambda>d. True),
      open_write_ok = (\<lambda>f. True),
      recursion_limit = 1000\<rparr>"

definition empty_world :: world where
  "empty_world = \<lparr>wproc = init_processor, dir_exists = (\<lambda>d. False), written = []\<rparr>"


section \<open>Properties of the builder\<close>

subsection \<open>Attaching a child keeps the node index well formed\<close>

lemma add_node_present:
  assumes "node_map p parent = Some pn"
  shows "\<exists>p1. add_node parent t c ty p = (Inr (uuid_count p), p1)
           \<and> append_page (uuid_count p) n p1 = with_child parent t c ty n p"
  using assms by (simp add: add_node_def append_page_def with_child_def Let_def)

lemma add_node_absent:
  assumes "node_map p parent = None"
  shows "\<exists>e. add_node parent t c ty p = (Inl e, logging ERROR (''Parent node '' @ str_nat parent @ '' not found.'') p)"
  using assms by (simp add: add_node_def)

lemma child_type_of_ne: "child_type_of a = Some b \<Longrightarrow> a \<noteq> b \<and> b \<noteq> ''root'' \<and> b \<in> {''root'', ''chapter'', ''section'', ''leaf''}"
  by (auto simp: child_type_of_def split: if_splits)

lemma wf_with_child:
  assumes "wf p" "node_map p parent = Some pn" "child_type_of (node_type pn) = Some ty"
  shows "wf (with_child parent t c ty n p)"
proof -
  let ?k = "uuid_count p"
  let ?m = "node_map p"
  let ?new = "\<lparr>title = t, content = c, node_type = ty, node_id = ?k,
                    parent_id = Some parent, children = [], page_number = [n], metadata = []\<rparr>"
  let ?m' = "?m(parent \<mapsto> pn\<lparr>children := children pn @ [?k]\<rparr>, ?k \<mapsto> ?new)"
  have fr: "\<And>j. ?k \<le> j \<Longrightarrow> ?m j = None" using assms(1) by (simp add: wf_def fresh_def)
  have pk: "parent \<noteq> ?k" using fr[of ?k] assms(2) by auto
  have eq: "with_child parent t c ty n p = p\<lparr>node_map := ?m', uuid_count := Suc ?k\<rparr>"
    using assms(2) by (simp add: with_child_def)
  have ok: "\<And>i nd. ?m i = Some nd \<Longrightarrow> node_ok ?m i nd" using assms(1) by (simp add: wf_def)
  have tyfacts: "node_type pn \<noteq> ty" "ty \<noteq> ''root''" "ty \<in> {''root'', ''chapter'', ''section'', ''leaf''}"
    using child_type_of_ne[OF assms(3)] by auto
  have old: "\<And>j jn. ?m j = Some jn \<Longrightarrow> \<exists>jn'. ?m' j = Some jn' \<and> node_type jn' = node_type jn
                 \<and> parent_id jn' = parent_id jn \<and> set (children jn) \<subseteq> set (children jn')
                 \<and> page_number jn' = page_number jn \<and> node_id jn' = node_id jn"
  proof -
    fix j jn assume a: "?m j = Some jn"
    then have "j \<noteq> ?k" using fr[of ?k] by auto
    then show "\<exists>jn'. ?m' j = Some jn' \<and> node_type jn' = node_type jn
                 \<and> parent_id jn' = parent_id jn \<and> set (children jn) \<subseteq> set (children jn')
                 \<and> page_number jn' = page_number jn \<and> node_id jn' = node_id jn"
      using a assms(2) by (cases "j = parent") auto
  qed
  have new_ok: "node_ok ?m' ?k ?new"
    using pk tyfacts assms(3) by (simp add: node_ok_def)
  have step: "node_ok ?m' i nd'" if h: "?m' i = Some nd'" for i nd'
  proof (cases "i = ?k")
    case True
    then show ?thesis using h new_ok by simp
  next
    case False
    then obtain nd where nd: "?m i = Some nd" and
      nd': "nd' = (if i = parent then nd\<lparr>children := children nd @ [?k]\<rparr> else nd)"
      using h assms(2) by (auto split: if_splits)
    have okn: "node_ok ?m i nd" using ok nd by blast
    have kids: "\<forall>c \<in> set (children nd'). \<exists>cn. ?m' c = Some cn
             \<and> child_type_of (node_type nd') = Some (node_type cn) \<and> parent_id cn = Some i"
    proof
      fix c assume c: "c \<in> set (children nd')"
      show "\<exists>cn. ?m' c = Some cn
             \<and> child_type_of (node_type nd') = Some (node_type cn) \<and> parent_id cn = Some i"
      proof (cases "c = ?k")
        case True
        then have "i = parent" using c nd' okn fr[of ?k] by (auto simp: node_ok_def split: if_splits)
        then show ?thesis using True nd nd' assms(2,3) pk by auto
      next
        case False
        then have "c \<in> set (children nd)" using c nd' by (auto split: if_splits)
        then obtain cn where cn: "?m c = Some cn" "child_type_of (node_type nd) = Some (node_type cn)" "parent_id cn = Some i"
          using okn by (auto simp: node_ok_def)
        from old[OF cn(1)] obtain cn' where "?m' c = Some cn'" "node_type cn' = node_type cn" "parent_id cn' = parent_id cn"
          by blast
        then show ?thesis using cn nd' by (auto split: if_splits)
      qed
    qed
    have par: "if node_type nd' = ''root'' then parent_id nd' = None
         else \<exists>q qn. parent_id nd' = Some q \<and> ?m' q = Some qn
                \<and> child_type_of (node_type qn) = Some (node_type nd') \<and> i \<in> set (children qn)"
    proof (cases "node_type nd = ''root''")
      case True
      then show ?thesis using okn nd' by (auto simp: node_ok_def)
    next
      case False
      then obtain q qn where q: "parent_id nd = Some q" "?m q = Some qn"
         "child_type_of (node_type qn) = Some (node_type nd)" "i \<in> set (children qn)"
        using okn by (auto simp: node_ok_def)
      from old[OF q(2)] obtain qn' where "?m' q = Some qn'" "node_type qn' = node_type qn"
         "set (children qn) \<subseteq> set (children qn')" by blast
      then show ?thesis using q False nd' by (auto split: if_splits)
    qed
    have "node_id nd' = i \<and> node_type nd' \<in> {''root'', ''chapter'', ''section'', ''leaf''}
      \<and> length (page_number nd') = (if node_type nd' = ''root'' then 0 else 1)"
      using okn nd' by (auto simp: node_ok_def)
    then show ?thesis using kids par unfolding node_ok_def by blast
  qed
  have "fresh (p\<lparr>node_map := ?m', uuid_count := Suc ?k\<rparr>)"
    using fr pk assms(2) by (auto simp: fresh_def)
  then show ?thesis using step unfolding eq wf_def by simp
qed

lemma with_child_root [simp]: "root (with_child parent t c ty n p) = root p"
  by (simp add: with_child_def split: option.splits)

lemma with_child_logs [simp]: "logs (with_child parent t c ty n p) = logs p"
  by (simp add: with_child_def split: option.splits)

lemma with_child_count:
  "node_map p parent = Some pn \<Longrightarrow> uuid_count (with_child parent t c ty n p) = Suc (uuid_count p)"
  by (simp add: with_child_def)

lemma with_child_fresh: "fresh p \<Longrightarrow> fresh (with_child parent t c ty n p)"
  by (auto simp: with_child_def fresh_def split: option.splits)

lemma with_child_has_type:
  assumes "fresh p" "has_type p ty' j"
  shows "has_type (with_child parent t c ty n p) ty' j"
proof -
  from assms(2) obtain jn where jn: "node_map p j = Some jn" "node_type jn = ty'"
    by (auto simp: has_type_def)
  have "j \<noteq> uuid_count p" using assms(1) jn by (auto simp: fresh_def)
  then show ?thesis using jn
    by (cases "j = parent") (auto simp: with_child_def has_type_def split: option.splits)
qed

lemma with_child_new:
  assumes "fresh p" "node_map p parent = Some pn"
  shows "node_map (with_child parent t c ty n p) (uuid_count p) =
     Some \<lparr>title = t, content = c, node_type = ty, node_id = uuid_count p,
           parent_id = Some parent, children = [], page_number = [n], metadata = []\<rparr>"
  using assms by (simp add: with_child_def)

lemma has_type_wf_with_child:
  assumes "wf p" "has_type p pty parent" "child_type_of pty = Some ty"
  shows "wf (with_child parent t c ty n p)"
  using assms wf_with_child by (auto simp: has_type_def)

lemma wf_fresh: "wf p \<Longrightarrow> fresh p" by (simp add: wf_def)

lemma attach_all_root [simp]: "root (attach_all parent ty n xs p) = root p"
  by (induction xs arbitrary: p) auto

lemma attach_all_logs [simp]: "logs (attach_all parent ty n xs p) = logs p"
  by (induction xs arbitrary: p) auto

lemma attach_all_fresh: "fresh p \<Longrightarrow> fresh (attach_all parent ty n xs p)"
  by (induction xs arbitrary: p) (auto simp: with_child_fresh)

lemma attach_all_has_type:
  "fresh p \<Longrightarrow> has_type p ty' j \<Longrightarrow> has_type (attach_all parent ty n xs p) ty' j"
  by (induction xs arbitrary: p) (auto simp: with_child_fresh with_child_has_type)

lemma attach_all_count:
  "fresh p \<Longrightarrow> has_type p pty parent \<Longrightarrow>
     uuid_count (attach_all parent ty n xs p) = uuid_count p + length xs"
proof (induction xs arbitrary: p)
  case Nil
  then show ?case by simp
next
  case (Cons x xs)
  obtain t c where x: "x = (t, c)" by (cases x)
  from Cons.prems obtain pn where pn: "node_map p parent = Some pn" by (auto simp: has_type_def)
  show ?case
    using Cons.IH[of "with_child parent t c ty n p"] Cons.prems pn x
    by (simp add: with_child_fresh with_child_has_type with_child_count)
qed

lemma attach_all_wf:
  "wf p \<Longrightarrow> has_type p pty parent \<Longrightarrow> child_type_of pty = Some ty \<Longrightarrow>
     wf (attach_all parent ty n xs p)"
proof (induction xs arbitrary: p)
  case Nil
  then show ?case by simp
next
  case (Cons x xs)
  obtain t c where x: "x = (t, c)" by (cases x)
  show ?case
    using Cons.IH[of "with_child parent t c ty n p"] Cons.prems x
    by (simp add: has_type_wf_with_child with_child_has_type wf_fresh)
qed

lemma attach_all_last:
  assumes "fresh p" "has_type p pty parent" "xs \<noteq> []"
  shows "has_type (attach_all parent ty n xs p) ty (uuid_count p + length xs - 1)"
  using assms
proof (induction xs arbitrary: p)
  case Nil
  then show ?case by simp
next
  case (Cons x xs)
  obtain t c where x: "x = (t, c)" by (cases x)
  from Cons.prems obtain pn where pn: "node_map p parent = Some pn" by (auto simp: has_type_def)
  let ?p1 = "with_child parent t c ty n p"
  have f1: "fresh ?p1" using Cons.prems by (simp add: with_child_fresh)
  have h1: "has_type ?p1 pty parent" using Cons.prems by (simp add: with_child_has_type)
  have c1: "uuid_count ?p1 = Suc (uuid_count p)" using pn by (simp add: with_child_count)
  have new: "has_type ?p1 ty (uuid_count p)"
    using with_child_new[OF Cons.prems(1) pn] by (simp add: has_type_def)
  show ?case
  proof (cases "xs = []")
    case True
    then show ?thesis using new x by simp
  next
    case False
    then show ?thesis using Cons.IH[OF f1 h1 False] c1 x by simp
  qed
qed

subsection \<open>The loops of a page, when no exception is raised\<close>

lemma chapter_loop_eq:
  assumes "fresh (proc b)" "root (proc b) = Some r" "has_type (proc b) ''root'' r"
  shows "chapter_loop ms n b =
     (None, b\<lparr>proc := attach_all r ''chapter'' n (map (\<lambda>t. (''Chapter: '' @ t, None)) ms) (proc b),
              current_chapter := last_created (current_chapter b) (uuid_count (proc b)) (length ms)\<rparr>)"
  using assms
proof (induction ms arbitrary: b)
  case Nil
  then show ?case by (simp add: last_created_def)
next
  case (Cons m ms)
  from Cons.prems obtain rn where rn: "node_map (proc b) r = Some rn" by (auto simp: has_type_def)
  let ?p1 = "with_child r (''Chapter: '' @ m) None ''chapter'' n (proc b)"
  let ?b1 = "b\<lparr>proc := ?p1, current_chapter := Some (uuid_count (proc b))\<rparr>"
  obtain p1 where p1: "add_node r (''Chapter: '' @ m) None ''chapter'' (proc b) = (Inr (uuid_count (proc b)), p1)"
    "append_page (uuid_count (proc b)) n p1 = ?p1"
    using add_node_present[OF rn] by blast
  have step: "chapter_loop (m # ms) n b = chapter_loop ms n ?b1"
    using Cons.prems(2) p1 by simp
  have pre: "fresh (proc ?b1)" "root (proc ?b1) = Some r" "has_type (proc ?b1) ''root'' r"
    using Cons.prems by (simp_all add: with_child_fresh with_child_has_type)
  have cnt: "uuid_count ?p1 = Suc (uuid_count (proc b))" using rn by (simp add: with_child_count)
  show ?case
    unfolding step Cons.IH[OF pre]
    using cnt by (simp add: last_created_def)
qed

lemma section_loop_eq:
  assumes "fresh (proc b)" "has_type (proc b) pty ch"
  shows "section_loop ch ms n b =
     (None, b\<lparr>proc := attach_all ch ''section'' n (map (\<lambda>t. (''Section: '' @ t, None)) ms) (proc b),
              current_section := last_created (current_section b) (uuid_count (proc b)) (length ms)\<rparr>)"
  using assms
proof (induction ms arbitrary: b)
  case Nil
  then show ?case by (simp add: last_created_def)
next
  case (Cons m ms)
  from Cons.prems obtain cn where cn: "node_map (proc b) ch = Some cn" by (auto simp: has_type_def)
  let ?p1 = "with_child ch (''Section: '' @ m) None ''section'' n (proc b)"
  let ?b1 = "b\<lparr>proc := ?p1, current_section := Some (uuid_count (proc b))\<rparr>"
  obtain p1 where p1: "add_node ch (''Section: '' @ m) None ''section'' (proc b) = (Inr (uuid_count (proc b)), p1)"
    "append_page (uuid_count (proc b)) n p1 = ?p1"
    using add_node_present[OF cn] by blast
  have step: "section_loop ch (m # ms) n b = section_loop ch ms n ?b1"
    using p1 by simp
  have pre: "fresh (proc ?b1)" "has_type (proc ?b1) pty ch"
    using Cons.prems by (simp_all add: with_child_fresh with_child_has_type)
  have cnt: "uuid_count ?p1 = Suc (uuid_count (proc b))" using cn by (simp add: with_child_count)
  show ?case
    unfolding step Cons.IH[OF pre]
    using cnt by (simp add: last_created_def)
qed

lemma leaf_loop_eq:
  assumes "fresh (proc b)" "has_type (proc b) pty sec"
  shows "leaf_loop sec ps n b =
     (None, b\<lparr>proc := attach_all sec ''leaf'' n
                 (map (\<lambda>para. (''Content from page '' @ str_nat n, Some para))
                    (filter (\<lambda>para. length para > 100) ps)) (proc b)\<rparr>)"
  using assms
proof (induction ps arbitrary: b)
  case Nil
  then show ?case by simp
next
  case (Cons para ps)
  show ?case
  proof (cases "length para > 100")
    case False
    then show ?thesis using Cons.IH[OF Cons.prems] by simp
  next
    case True
    from Cons.prems obtain sn where sn: "node_map (proc b) sec = Some sn" by (auto simp: has_type_def)
    let ?p1 = "with_child sec (''Content from page '' @ str_nat n) (Some para) ''leaf'' n (proc b)"
    let ?b1 = "b\<lparr>proc := ?p1\<rparr>"
    obtain p1 where p1: "add_node sec (''Content from page '' @ str_nat n) (Some para) ''leaf'' (proc b) = (Inr (uuid_count (proc b)), p1)"
      "append_page (uuid_count (proc b)) n p1 = ?p1"
      using add_node_present[OF sn] by blast
    have step: "leaf_loop sec (para # ps) n b = leaf_loop sec ps n ?b1"
      using p1 True by simp
    have pre: "fresh (proc ?b1)" "has_type (proc ?b1) pty sec"
      using Cons.prems by (simp_all add: with_child_fresh with_child_has_type)
    show ?thesis
      unfolding step Cons.IH[OF pre] using True by simp
  qed
qed

lemma last_created_has_type:
  assumes "fresh p" "has_type p pty parent" "\<forall>c. cur = Some c \<longrightarrow> has_type p ty c"
    "last_created cur (uuid_count p) (length xs) = Some c"
  shows "has_type (attach_all parent ty n xs p) ty c"
proof (cases "xs = []")
  case True
  then show ?thesis using assms by (simp add: last_created_def)
next
  case False
  then have "c = uuid_count p + length xs - 1" using assms(4) by (simp add: last_created_def)
  then show ?thesis using attach_all_last[OF assms(1,2) False] by simp
qed

lemma process_page_eq:
  assumes "cursors_ok b"
  shows "process_page n pc b = page_effect n (page_text_of pc) b"
    and "cursors_ok (page_effect n (page_text_of pc) b)"
proof -
  let ?text = "page_text_of pc"
  from assms obtain r where r: "root (proc b) = Some r" "has_type (proc b) ''root'' r"
    by (auto simp: cursors_ok_def)
  have wf0: "wf (proc b)" using assms by (simp add: cursors_ok_def)
  define cs where "cs = finditer chapter_re None ?text"
  define p1 where "p1 = attach_all r ''chapter'' n (map (\<lambda>t. (''Chapter: '' @ t, None)) cs) (proc b)"
  define ch1 where "ch1 = last_created (current_chapter b) (uuid_count (proc b)) (length cs)"
  define b1 where "b1 = b\<lparr>proc := p1, current_chapter := ch1\<rparr>"
  define ss where "ss = (case ch1 of None \<Rightarrow> [] | Some ch \<Rightarrow> finditer section_re None ?text)"
  define p2 where "p2 = (case ch1 of None \<Rightarrow> p1
              | Some ch \<Rightarrow> attach_all ch ''section'' n (map (\<lambda>t. (''Section: '' @ t, None)) ss) p1)"
  define sec2 where "sec2 = last_created (current_section b) (uuid_count p1) (length ss)"
  define b2 where "b2 = b1\<lparr>proc := p2, current_section := sec2\<rparr>"
  define ps where "ps = filter (\<lambda>para. length para > 100) (paragraphs ?text)"
  define p3 where "p3 = (case sec2 of None \<Rightarrow> p2
              | Some sec \<Rightarrow> attach_all sec ''leaf'' n
                      (map (\<lambda>para. (''Content from page '' @ str_nat n, Some para)) ps) p2)"
  define b3 where "b3 = b2\<lparr>proc := p3\<rparr>"
  have l1: "chapter_loop (finditer chapter_re None ?text) n b = (None, b1)"
    unfolding b1_def p1_def ch1_def cs_def
    using chapter_loop_eq[OF wf_fresh[OF wf0] r] .
  have wf1: "wf p1" unfolding p1_def
    using attach_all_wf[OF wf0 r(2)] by (simp add: child_type_of_def)
  have r1: "has_type p1 ''root'' r" unfolding p1_def
    using attach_all_has_type[OF wf_fresh[OF wf0] r(2)] .
  have ch1: "\<forall>c. ch1 = Some c \<longrightarrow> has_type p1 ''chapter'' c"
    unfolding p1_def ch1_def
    using last_created_has_type[OF wf_fresh[OF wf0] r(2), of "current_chapter b" "''chapter''"]
      assms by (auto simp: cursors_ok_def)
  have s1: "\<forall>s. current_section b = Some s \<longrightarrow> has_type p1 ''section'' s"
    unfolding p1_def
    using attach_all_has_type[OF wf_fresh[OF wf0]] assms by (auto simp: cursors_ok_def)
  have b1_sel: "current_chapter b1 = ch1" "proc b1 = p1" "current_section b1 = current_section b"
    by (simp_all add: b1_def)
  have l2: "(case current_chapter b1 of None \<Rightarrow> (None, b1)
             | Some ch \<Rightarrow> section_loop ch (finditer section_re None ?text) n b1) = (None, b2)"
  proof (cases ch1)
    case None
    then show ?thesis by (simp add: b1_sel b2_def p2_def sec2_def ss_def last_created_def b1_def)
  next
    case (Some ch)
    then have "has_type p1 ''chapter'' ch" using ch1 by simp
    then show ?thesis
      using section_loop_eq[of b1 "''chapter''" ch "finditer section_re None ?text" n] wf_fresh[OF wf1] Some
      by (simp add: b1_sel b2_def p2_def sec2_def ss_def)
  qed
  have wf2: "wf p2"
  proof (cases ch1)
    case None
    then show ?thesis using wf1 by (simp add: p2_def)
  next
    case (Some ch)
    then have "has_type p1 ''chapter'' ch" using ch1 by simp
    then show ?thesis using attach_all_wf[OF wf1, of "''chapter''" ch "''section''"] Some
      by (simp add: child_type_of_def p2_def)
  qed
  have keep2: "\<And>ty j. has_type p1 ty j \<Longrightarrow> has_type p2 ty j"
    using attach_all_has_type[OF wf_fresh[OF wf1]] by (cases ch1) (auto simp: p2_def)
  have s2: "\<forall>s. sec2 = Some s \<longrightarrow> has_type p2 ''section'' s"
  proof (cases ch1)
    case None
    then show ?thesis using s1 by (simp add: last_created_def sec2_def ss_def p2_def)
  next
    case (Some ch)
    then have "has_type p1 ''chapter'' ch" using ch1 by simp
    then show ?thesis
      using last_created_has_type[OF wf_fresh[OF wf1], of "''chapter''" ch "current_section b" "''section''"]
        s1 Some by (auto simp: sec2_def p2_def)
  qed
  have b2_sel: "current_chapter b2 = ch1" "proc b2 = p2" "current_section b2 = sec2"
    by (simp_all add: b2_def b1_def)
  have l3: "(case current_section b2 of None \<Rightarrow> (None, b2)
             | Some sec \<Rightarrow> leaf_loop sec (paragraphs ?text) n b2) = (None, b3)"
  proof (cases sec2)
    case None
    then show ?thesis by (simp add: b2_sel b3_def p3_def b2_def)
  next
    case (Some sec)
    then have "has_type p2 ''section'' sec" using s2 by simp
    then show ?thesis
      using leaf_loop_eq[of b2 "''section''" sec "paragraphs ?text" n] wf_fresh[OF wf2] Some
      by (simp add: b2_sel b3_def p3_def ps_def)
  qed
  have wf3: "wf p3"
  proof (cases sec2)
    case None
    then show ?thesis using wf2 by (simp add: p3_def)
  next
    case (Some sec)
    then have "has_type p2 ''section'' sec" using s2 by simp
    then show ?thesis using attach_all_wf[OF wf2, of "''section''" sec "''leaf''"] Some
      by (simp add: child_type_of_def p3_def)
  qed
  have keep3: "\<And>ty j. has_type p2 ty j \<Longrightarrow> has_type p3 ty j"
    using attach_all_has_type[OF wf_fresh[OF wf2]] by (cases sec2) (auto simp: p3_def)
  have eff: "page_effect n ?text b = b3"
    using r unfolding b3_def b2_def b1_def p3_def ps_def sec2_def p2_def ss_def ch1_def p1_def cs_def
    by (cases b) (simp add: page_effect_def Let_def cong: option.case_cong)
  show "process_page n pc b = page_effect n (page_text_of pc) b"
    unfolding eff by (simp add: process_page_def Let_def l1 l2 l3)
  have root3: "root p3 = Some r"
    using r by (cases sec2; cases ch1) (simp_all add: p3_def p2_def p1_def)
  have b3_sel: "current_chapter b3 = ch1" "proc b3 = p3" "current_section b3 = sec2"
    by (simp_all add: b3_def b2_def b1_def)
  show "cursors_ok (page_effect n (page_text_of pc) b)"
    unfolding eff cursors_ok_def b3_sel
    using wf3 root3 keep3[OF keep2[OF r1]] ch1 s2 keep3 keep2 by auto
qed

subsection \<open>The loop over the pages and the whole build\<close>

lemma pages_loop_cursors_ok: "cursors_ok b \<Longrightarrow> cursors_ok (pages_loop xs b)"
proof (induction xs arbitrary: b)
  case Nil
  then show ?case by simp
next
  case (Cons x xs)
  obtain n pc where x: "x = (n, pc)" by (cases x)
  have "cursors_ok (process_page n pc b)"
    using process_page_eq[OF Cons.prems, of n pc] by simp
  then show ?case using Cons.IH x by simp
qed

lemma create_textbook_structure_start:
  "create_textbook_structure t c p =
     proc (pages_loop (List.enumerate 1 (tl (split_str ''[PAGE_'' c))) (start_build t p))"
  by (simp add: create_textbook_structure_def start_build_def Let_def)

lemma start_build_cursors_ok:
  assumes "wf p"
  shows "cursors_ok (start_build t p)"
proof -
  let ?k = "uuid_count p"
  let ?rn = "\<lparr>title = t, content = None, node_type = ''root'', node_id = ?k,
                   parent_id = None, children = [], page_number = [], metadata = []\<rparr>"
  let ?m' = "(node_map p)(?k \<mapsto> ?rn)"
  have fr: "\<And>j. ?k \<le> j \<Longrightarrow> node_map p j = None" using assms by (simp add: wf_def fresh_def)
  have ok: "\<And>i nd. node_map p i = Some nd \<Longrightarrow> node_ok (node_map p) i nd"
    using assms by (simp add: wf_def)
  have keep: "\<And>j jn. node_map p j = Some jn \<Longrightarrow> ?m' j = Some jn"
    using fr[of ?k] by auto
  have "node_ok ?m' i nd" if h: "?m' i = Some nd" for i nd
  proof (cases "i = ?k")
    case True
    then show ?thesis using h by (auto simp: node_ok_def)
  next
    case False
    then have nd: "node_map p i = Some nd" using h by simp
    have okn: "node_ok (node_map p) i nd" using ok nd by blast
    have kids: "\<forall>c \<in> set (children nd). \<exists>cn. ?m' c = Some cn
             \<and> child_type_of (node_type nd) = Some (node_type cn) \<and> parent_id cn = Some i"
    proof
      fix c assume "c \<in> set (children nd)"
      then obtain cn where cn: "node_map p c = Some cn"
          "child_type_of (node_type nd) = Some (node_type cn)" "parent_id cn = Some i"
        using okn by (auto simp: node_ok_def)
      then show "\<exists>cn. ?m' c = Some cn
             \<and> child_type_of (node_type nd) = Some (node_type cn) \<and> parent_id cn = Some i"
        using keep[OF cn(1)] by blast
    qed
    have par: "if node_type nd = ''root'' then parent_id nd = None
         else \<exists>q qn. parent_id nd = Some q \<and> ?m' q = Some qn
                \<and> child_type_of (node_type qn) = Some (node_type nd) \<and> i \<in> set (children qn)"
    proof (cases "node_type nd = ''root''")
      case True
      then show ?thesis using okn by (simp add: node_ok_def)
    next
      case False
      then obtain q qn where q: "parent_id nd = Some q" "node_map p q = Some qn"
         "child_type_of (node_type qn) = Some (node_type nd)" "i \<in> set (children qn)"
        using okn by (auto simp: node_ok_def)
      then show ?thesis using keep[OF q(2)] False by auto
    qed
    have "node_id nd = i \<and> node_type nd \<in> {''root'', ''chapter'', ''section'', ''leaf''}
      \<and> length (page_number nd) = (if node_type nd = ''root'' then 0 else 1)"
      using okn by (simp add: node_ok_def)
    then show ?thesis using kids par unfolding node_ok_def by blast
  qed
  moreover have "fresh (proc (start_build t p))"
    using fr by (simp add: fresh_def start_build_def)
  ultimately have "wf (proc (start_build t p))"
    by (simp add: wf_def start_build_def)
  then show ?thesis
    by (simp add: cursors_ok_def has_type_def start_build_def)
qed

lemma create_textbook_structure_wf:
  assumes "wf p"
  shows "wf (create_textbook_structure t c p)"
  using pages_loop_cursors_ok[OF start_build_cursors_ok[OF assms]]
  by (simp add: create_textbook_structure_start cursors_ok_def)

lemma init_processor_wf: "wf init_processor"
  by (simp add: wf_def fresh_def init_processor_def)

lemma foldl_create_wf:
  "wf p \<Longrightarrow> wf (foldl (\<lambda>p (t, c). create_textbook_structure t c p) p docs)"
  by (induction docs arbitrary: p) (auto simp: create_textbook_structure_wf)

lemma processor_after_wf: "wf (processor_after docs)"
  unfolding processor_after_def using foldl_create_wf[OF init_processor_wf] .

lemma wf_node_ok: "wf p \<Longrightarrow> node_map p i = Some nd \<Longrightarrow> node_ok (node_map p) i nd"
  by (simp add: wf_def)


subsection \<open>The nodes that a loop creates\<close>

lemma with_child_nodes:
  assumes "fresh p" "node_map p parent = Some pn"
  shows "node_map (with_child parent t c ty n p) parent
           = Some (pn\<lparr>children := children pn @ [uuid_count p]\<rparr>)"
    and "j \<noteq> parent \<Longrightarrow> j \<noteq> uuid_count p \<Longrightarrow> node_map (with_child parent t c ty n p) j = node_map p j"
proof -
  have "parent \<noteq> uuid_count p" using assms by (auto simp: fresh_def)
  then show "node_map (with_child parent t c ty n p) parent
           = Some (pn\<lparr>children := children pn @ [uuid_count p]\<rparr>)"
    using assms(2) by (simp add: with_child_def)
  show "j \<noteq> parent \<Longrightarrow> j \<noteq> uuid_count p \<Longrightarrow> node_map (with_child parent t c ty n p) j = node_map p j"
    using assms(2) by (simp add: with_child_def)
qed

lemma attach_all_nodes:
  assumes "fresh p" "node_map p parent = Some pn"
  shows "uuid_count (attach_all parent ty n xs p) = uuid_count p + length xs
    \<and> node_map (attach_all parent ty n xs p) parent
        = Some (pn\<lparr>children := children pn @ [uuid_count p ..< uuid_count p + length xs]\<rparr>)
    \<and> (\<forall>i < length xs. node_map (attach_all parent ty n xs p) (uuid_count p + i)
        = Some \<lparr>title = fst (xs ! i), content = snd (xs ! i), node_type = ty,
                node_id = uuid_count p + i, parent_id = Some parent, children = [],
                page_number = [n], metadata = []\<rparr>)
    \<and> (\<forall>j. j \<noteq> parent \<and> j < uuid_count p \<longrightarrow> node_map (attach_all parent ty n xs p) j = node_map p j)"
  using assms
proof (induction xs arbitrary: p pn)
  case Nil
  then show ?case by simp
next
  case (Cons x xs)
  obtain t c where x: "x = (t, c)" by (cases x)
  let ?k = "uuid_count p"
  let ?p1 = "with_child parent t c ty n p"
  let ?new = "\<lparr>title = t, content = c, node_type = ty, node_id = ?k,
                parent_id = Some parent, children = [], page_number = [n], metadata = []\<rparr>"
  have pk: "parent \<noteq> ?k" "parent < ?k" using Cons.prems by (auto simp: fresh_def not_le[symmetric])
  have f1: "fresh ?p1" using Cons.prems by (simp add: with_child_fresh)
  have c1: "uuid_count ?p1 = Suc ?k" using Cons.prems by (simp add: with_child_count)
  have par1: "node_map ?p1 parent = Some (pn\<lparr>children := children pn @ [?k]\<rparr>)"
    using with_child_nodes(1)[OF Cons.prems] .
  have new1: "node_map ?p1 ?k = Some ?new" using with_child_new[OF Cons.prems] .
  have old1: "\<And>j. j \<noteq> parent \<Longrightarrow> j < ?k \<Longrightarrow> node_map ?p1 j = node_map p j"
    using with_child_nodes(2)[OF Cons.prems] by simp
  note IH = Cons.IH[OF f1 par1, unfolded c1]
  let ?r = "attach_all parent ty n xs ?p1"
  have res: "attach_all parent ty n (x # xs) p = ?r" using x by simp
  have A: "uuid_count ?r = ?k + length (x # xs)" using IH by simp
  have upt: "[?k ..< ?k + length (x # xs)] = ?k # [Suc ?k ..< Suc ?k + length xs]"
    using upt_conv_Cons[of ?k "?k + length (x # xs)"] by simp
  have "node_map ?r parent = Some (pn\<lparr>children := children pn @ [?k]\<rparr>
          \<lparr>children := children (pn\<lparr>children := children pn @ [?k]\<rparr>) @ [Suc ?k ..< Suc ?k + length xs]\<rparr>)"
    using IH by blast
  then have B: "node_map ?r parent = Some (pn\<lparr>children := children pn @ [?k ..< ?k + length (x # xs)]\<rparr>)"
    unfolding upt by simp
  have C: "node_map ?r (?k + i) = Some \<lparr>title = fst ((x # xs) ! i), content = snd ((x # xs) ! i), node_type = ty,
                node_id = ?k + i, parent_id = Some parent, children = [],
                page_number = [n], metadata = []\<rparr>" if "i < length (x # xs)" for i
  proof (cases i)
    case 0
    have "node_map ?r ?k = node_map ?p1 ?k" using IH pk by simp
    then show ?thesis using 0 new1 x by simp
  next
    case (Suc i')
    then have "i' < length xs" using that by simp
    then have "node_map ?r (Suc ?k + i') = Some \<lparr>title = fst (xs ! i'), content = snd (xs ! i'), node_type = ty,
                node_id = Suc ?k + i', parent_id = Some parent, children = [],
                page_number = [n], metadata = []\<rparr>" using IH by blast
    then show ?thesis using Suc by simp
  qed
  have D: "node_map ?r j = node_map p j" if "j \<noteq> parent \<and> j < ?k" for j
  proof -
    have "node_map ?r j = node_map ?p1 j" using IH that by simp
    then show ?thesis using old1 that by simp
  qed
  show ?case unfolding res using A B C D by blast
qed

lemma fresh_lt: "fresh p \<Longrightarrow> node_map p j = Some jn \<Longrightarrow> j < uuid_count p"
  by (rule ccontr) (auto simp: fresh_def not_less)

lemma attach_all_new_types:
  assumes "fresh p" "has_type p pty parent"
    and "uuid_count p \<le> i" "i < uuid_count (attach_all parent ty n xs p)"
  shows "has_type (attach_all parent ty n xs p) ty i"
proof -
  from assms(2) obtain pn where pn: "node_map p parent = Some pn" by (auto simp: has_type_def)
  note nodes = attach_all_nodes[OF assms(1) pn, of ty n xs]
  define i' where "i' = i - uuid_count p"
  have i': "i = uuid_count p + i'" "i' < length xs" using assms(3,4) nodes by (auto simp: i'_def)
  then have "node_map (attach_all parent ty n xs p) i
               = Some \<lparr>title = fst (xs ! i'), content = snd (xs ! i'), node_type = ty,
                node_id = uuid_count p + i', parent_id = Some parent, children = [],
                page_number = [n], metadata = []\<rparr>"
    using nodes by blast
  then show ?thesis by (simp add: has_type_def)
qed

lemma wf_children_lt:
  assumes "wf p" "node_map p i = Some nd" "c \<in> set (children nd)"
  shows "c < uuid_count p"
proof -
  obtain cn where "node_map p c = Some cn"
    using wf_node_ok[OF assms(1,2)] assms(3) by (auto simp: node_ok_def)
  then show ?thesis using fresh_lt[OF wf_fresh[OF assms(1)]] by blast
qed

subsection \<open>Nodes are kept; page numbers of a page\<close>

lemma keeps_nodes_refl: "keeps_nodes p p"
  unfolding keeps_nodes_def
proof (intro allI impI)
  fix j jn assume "node_map p j = Some jn"
  then have "node_map p j = Some (jn\<lparr>children := children jn\<rparr>)" by simp
  then show "\<exists>cs. node_map p j = Some (jn\<lparr>children := cs\<rparr>)" by blast
qed

lemma keeps_nodes_trans:
  assumes "keeps_nodes p q" "keeps_nodes q r"
  shows "keeps_nodes p r"
  unfolding keeps_nodes_def
proof (intro allI impI)
  fix j jn assume "node_map p j = Some jn"
  then obtain cs where cs: "node_map q j = Some (jn\<lparr>children := cs\<rparr>)"
    using assms(1) by (auto simp: keeps_nodes_def)
  then obtain cs' where "node_map r j = Some (jn\<lparr>children := cs\<rparr>\<lparr>children := cs'\<rparr>)"
    using assms(2) unfolding keeps_nodes_def by blast
  then have "node_map r j = Some (jn\<lparr>children := cs'\<rparr>)" by simp
  then show "\<exists>cs. node_map r j = Some (jn\<lparr>children := cs\<rparr>)" by blast
qed

lemma with_child_keeps_nodes:
  assumes "fresh p"
  shows "keeps_nodes p (with_child parent t c ty n p)"
proof (cases "node_map p parent")
  case None
  then show ?thesis using keeps_nodes_refl by (simp add: with_child_def)
next
  case (Some pn)
  show ?thesis
    unfolding keeps_nodes_def
  proof (intro allI impI)
    fix j jn assume j: "node_map p j = Some jn"
    then have jk: "j \<noteq> uuid_count p" using assms by (auto simp: fresh_def)
    show "\<exists>cs. node_map (with_child parent t c ty n p) j = Some (jn\<lparr>children := cs\<rparr>)"
    proof (cases "j = parent")
      case True
      then have "node_map (with_child parent t c ty n p) j
                   = Some (jn\<lparr>children := children jn @ [uuid_count p]\<rparr>)"
        using with_child_nodes(1)[OF assms Some] j Some by simp
      then show ?thesis by blast
    next
      case False
      then have "node_map (with_child parent t c ty n p) j = Some (jn\<lparr>children := children jn\<rparr>)"
        using with_child_nodes(2)[OF assms Some False jk] j by simp
      then show ?thesis by blast
    qed
  qed
qed

lemma attach_all_keeps_nodes:
  "fresh p \<Longrightarrow> keeps_nodes p (attach_all parent ty n xs p)"
proof (induction xs arbitrary: p)
  case Nil
  then show ?case by (simp add: keeps_nodes_refl)
next
  case (Cons x xs)
  obtain t c where x: "x = (t, c)" by (cases x)
  have "keeps_nodes (with_child parent t c ty n p) (attach_all parent ty n xs (with_child parent t c ty n p))"
    using Cons.IH with_child_fresh[OF Cons.prems] by blast
  then show ?case
    using keeps_nodes_trans[OF with_child_keeps_nodes[OF Cons.prems]] x by simp
qed




lemma page_effect_induct:
  assumes ok: "cursors_ok b" and base: "P (proc b)"
    and step: "\<And>p parent pty ty xs. wf p \<Longrightarrow> has_type p pty parent \<Longrightarrow> P p \<Longrightarrow>
                 (ty = ''leaf'' \<longrightarrow> (\<forall>x \<in> set xs. fst x = ''Content from page '' @ str_nat n)) \<Longrightarrow>
                 P (attach_all parent ty n xs p)"
  shows "P (proc (page_effect n text b))"
proof -
  from ok obtain r where r: "root (proc b) = Some r" "has_type (proc b) ''root'' r"
    by (auto simp: cursors_ok_def)
  have wf0: "wf (proc b)" using ok by (simp add: cursors_ok_def)
  define cs where "cs = finditer chapter_re None text"
  define p1 where "p1 = attach_all r ''chapter'' n (map (\<lambda>t. (''Chapter: '' @ t, None)) cs) (proc b)"
  define ch1 where "ch1 = last_created (current_chapter b) (uuid_count (proc b)) (length cs)"
  define ss where "ss = (case ch1 of None \<Rightarrow> [] | Some ch \<Rightarrow> finditer section_re None text)"
  define p2 where "p2 = (case ch1 of None \<Rightarrow> p1
              | Some ch \<Rightarrow> attach_all ch ''section'' n (map (\<lambda>t. (''Section: '' @ t, None)) ss) p1)"
  define sec2 where "sec2 = last_created (current_section b) (uuid_count p1) (length ss)"
  define ps where "ps = filter (\<lambda>para. length para > 100) (paragraphs text)"
  define p3 where "p3 = (case sec2 of None \<Rightarrow> p2
              | Some sec \<Rightarrow> attach_all sec ''leaf'' n
                      (map (\<lambda>para. (''Content from page '' @ str_nat n, Some para)) ps) p2)"
  have eff: "proc (page_effect n text b) = p3"
    using r unfolding p3_def ps_def sec2_def p2_def ss_def ch1_def p1_def cs_def
    by (simp add: page_effect_def Let_def cong: option.case_cong)
  have wf1: "wf p1" unfolding p1_def
    using attach_all_wf[OF wf0 r(2)] by (simp add: child_type_of_def)
  have P1: "P p1" unfolding p1_def using step[OF wf0 r(2) base] by simp
  have ch1: "\<forall>c. ch1 = Some c \<longrightarrow> has_type p1 ''chapter'' c"
    unfolding p1_def ch1_def
    using last_created_has_type[OF wf_fresh[OF wf0] r(2), of "current_chapter b" "''chapter''"]
      ok by (auto simp: cursors_ok_def)
  have s1: "\<forall>s. current_section b = Some s \<longrightarrow> has_type p1 ''section'' s"
    unfolding p1_def
    using attach_all_has_type[OF wf_fresh[OF wf0]] ok by (auto simp: cursors_ok_def)
  have wf2: "wf p2" and P2: "P p2" and s2: "\<forall>s. sec2 = Some s \<longrightarrow> has_type p2 ''section'' s"
  proof -
    show "wf p2"
    proof (cases ch1)
      case None
      then show ?thesis using wf1 by (simp add: p2_def)
    next
      case (Some ch)
      then have "has_type p1 ''chapter'' ch" using ch1 by simp
      then show ?thesis using attach_all_wf[OF wf1, of "''chapter''" ch "''section''"] Some
        by (simp add: child_type_of_def p2_def)
    qed
    show "P p2"
    proof (cases ch1)
      case None
      then show ?thesis using P1 by (simp add: p2_def)
    next
      case (Some ch)
      then have "has_type p1 ''chapter'' ch" using ch1 by simp
      then show ?thesis using step[OF wf1 _ P1, of "''chapter''" ch "''section''"] Some
        by (simp add: p2_def)
    qed
    show "\<forall>s. sec2 = Some s \<longrightarrow> has_type p2 ''section'' s"
    proof (cases ch1)
      case None
      then show ?thesis using s1 by (simp add: last_created_def sec2_def ss_def p2_def)
    next
      case (Some ch)
      then have "has_type p1 ''chapter'' ch" using ch1 by simp
      then show ?thesis
        using last_created_has_type[OF wf_fresh[OF wf1], of "''chapter''" ch "current_section b" "''section''"]
          s1 Some by (auto simp: sec2_def p2_def)
    qed
  qed
  have "P p3"
  proof (cases sec2)
    case None
    then show ?thesis using P2 by (simp add: p3_def)
  next
    case (Some sec)
    then have "has_type p2 ''section'' sec" using s2 by simp
    then show ?thesis using step[OF wf2 _ P2, of "''section''" sec "''leaf''"] Some
      by (simp add: p3_def)
  qed
  then show ?thesis using eff by simp
qed

lemma page_effect_keeps_nodes:
  assumes "cursors_ok b"
  shows "keeps_nodes (proc b) (proc (page_effect n text b))"
proof (rule page_effect_induct[OF assms, where P = "keeps_nodes (proc b)"])
  show "keeps_nodes (proc b) (proc b)" by (rule keeps_nodes_refl)
next
  fix p parent pty ty xs
  assume "wf p" "keeps_nodes (proc b) p"
  then show "keeps_nodes (proc b) (attach_all parent ty n xs p)"
    using keeps_nodes_trans attach_all_keeps_nodes[OF wf_fresh] by blast
qed


lemma pages_loop_keeps_nodes:
  "cursors_ok b \<Longrightarrow> keeps_nodes (proc b) (proc (pages_loop xs b))"
proof (induction xs arbitrary: b)
  case Nil
  then show ?case by (simp add: keeps_nodes_refl)
next
  case (Cons x xs)
  obtain n pc where x: "x = (n, pc)" by (cases x)
  have eq: "process_page n pc b = page_effect n (page_text_of pc) b"
    and ok: "cursors_ok (page_effect n (page_text_of pc) b)"
    using process_page_eq[OF Cons.prems] by simp_all
  have "keeps_nodes (proc b) (proc (process_page n pc b))"
    unfolding eq using page_effect_keeps_nodes[OF Cons.prems] .
  moreover have "keeps_nodes (proc (process_page n pc b)) (proc (pages_loop xs (process_page n pc b)))"
    using Cons.IH ok eq by simp
  ultimately show ?case using keeps_nodes_trans x by auto
qed




subsection \<open>A build on a used processor and on a new one\<close>

lemma sim_with_child:
  assumes "sim k m0 p q"
  shows "sim k m0 (with_child (k + parent) t c ty n p) (with_child parent t c ty n q)"
proof (cases "node_map q parent")
  case None
  then have "node_map p (k + parent) = None" using assms by (simp add: sim_def)
  then show ?thesis using None assms by (simp add: with_child_def)
next
  case (Some qn)
  then have pn: "node_map p (k + parent) = Some (shift_node k qn)"
    using assms by (simp add: sim_def)
  have cnt: "uuid_count p = k + uuid_count q" using assms by (simp add: sim_def)
  let ?p' = "with_child (k + parent) t c ty n p"
  let ?q' = "with_child parent t c ty n q"
  have nodes: "node_map ?p' (k + i) = map_option (shift_node k) (node_map ?q' i)" for i
  proof -
    have old: "node_map p (k + i) = map_option (shift_node k) (node_map q i)"
      using assms by (simp add: sim_def)
    show ?thesis
      using Some pn cnt old by (simp add: with_child_def shift_node_def)
  qed
  have frame: "node_map ?p' j = m0 j" if "j < k" for j
  proof -
    have "j \<noteq> k + parent" "j \<noteq> uuid_count p" using that cnt by simp_all
    then have "node_map ?p' j = node_map p j" using pn by (simp add: with_child_def)
    then show ?thesis using assms that by (simp add: sim_def)
  qed
  have "uuid_count ?p' = k + uuid_count ?q'" "root ?p' = map_option ((+) k) (root ?q')"
    using Some pn assms by (simp_all add: with_child_def sim_def)
  then show ?thesis using nodes frame unfolding sim_def by blast
qed

lemma sim_attach_all:
  "sim k m0 p q \<Longrightarrow> sim k m0 (attach_all (k + parent) ty n xs p) (attach_all parent ty n xs q)"
proof (induction xs arbitrary: p q)
  case Nil
  then show ?case by simp
next
  case (Cons x xs)
  obtain t c where x: "x = (t, c)" by (cases x)
  show ?case using Cons.IH[OF sim_with_child[OF Cons.prems]] x by simp
qed

lemma last_created_shift:
  "cur_p = map_option ((+) k) cur_q \<Longrightarrow>
     last_created cur_p (k + u) len = map_option ((+) k) (last_created cur_q u len)"
  by (auto simp: last_created_def)

lemma sim_page_effect:
  assumes "sim_build k m0 bp bq"
  shows "sim_build k m0 (page_effect n text bp) (page_effect n text bq)"
proof (cases "root (proc bq)")
  case None
  then have "root (proc bp) = None" using assms by (simp add: sim_build_def sim_def)
  then show ?thesis using None assms by (simp add: page_effect_def)
next
  case (Some r)
  then have rp: "root (proc bp) = Some (k + r)" using assms by (simp add: sim_build_def sim_def)
  have s0: "sim k m0 (proc bp) (proc bq)" using assms by (simp add: sim_build_def)
  define cs where "cs = finditer chapter_re None text"
  define xs1 where "xs1 = map (\<lambda>t. (''Chapter: '' @ t, None :: string option)) cs"
  define q1 where "q1 = attach_all r ''chapter'' n xs1 (proc bq)"
  define p1 where "p1 = attach_all (k + r) ''chapter'' n xs1 (proc bp)"
  define chq where "chq = last_created (current_chapter bq) (uuid_count (proc bq)) (length cs)"
  define chp where "chp = last_created (current_chapter bp) (uuid_count (proc bp)) (length cs)"
  have s1: "sim k m0 p1 q1" unfolding p1_def q1_def using sim_attach_all[OF s0] .
  have ch: "chp = map_option ((+) k) chq"
    unfolding chp_def chq_def
    using last_created_shift[of "current_chapter bp" k "current_chapter bq" "uuid_count (proc bq)" "length cs"]
      assms by (simp add: sim_build_def sim_def)
  define ss where "ss = (case chq of None \<Rightarrow> [] | Some ch \<Rightarrow> finditer section_re None text)"
  have ssp: "(case chp of None \<Rightarrow> [] | Some ch \<Rightarrow> finditer section_re None text) = ss"
    unfolding ss_def ch by (cases chq) simp_all
  define xs2 where "xs2 = map (\<lambda>t. (''Section: '' @ t, None :: string option)) ss"
  define q2 where "q2 = (case chq of None \<Rightarrow> q1 | Some ch \<Rightarrow> attach_all ch ''section'' n xs2 q1)"
  define p2 where "p2 = (case chp of None \<Rightarrow> p1 | Some ch \<Rightarrow> attach_all ch ''section'' n xs2 p1)"
  have s2: "sim k m0 p2 q2"
    unfolding p2_def q2_def ch using s1 sim_attach_all[OF s1] by (cases chq) simp_all
  define secq where "secq = last_created (current_section bq) (uuid_count q1) (length ss)"
  define secp where "secp = last_created (current_section bp) (uuid_count p1) (length ss)"
  have sec: "secp = map_option ((+) k) secq"
    unfolding secp_def secq_def
    using last_created_shift[of "current_section bp" k "current_section bq" "uuid_count q1" "length ss"]
      assms s1 by (simp add: sim_build_def sim_def)
  define xs3 where "xs3 = map (\<lambda>para. (''Content from page '' @ str_nat n, Some para))
                            (filter (\<lambda>para. length para > 100) (paragraphs text))"
  define q3 where "q3 = (case secq of None \<Rightarrow> q2 | Some s \<Rightarrow> attach_all s ''leaf'' n xs3 q2)"
  define p3 where "p3 = (case secp of None \<Rightarrow> p2 | Some s \<Rightarrow> attach_all s ''leaf'' n xs3 p2)"
  have s3: "sim k m0 p3 q3"
    unfolding p3_def q3_def sec using s2 sim_attach_all[OF s2] by (cases secq) simp_all
  have eq: "page_effect n text bq = \<lparr>proc = q3, current_chapter = chq, current_section = secq\<rparr>"
    using Some
    unfolding q3_def xs3_def secq_def q2_def xs2_def ss_def chq_def q1_def xs1_def cs_def
    by (simp add: page_effect_def Let_def cong: option.case_cong)
  have ep: "page_effect n text bp = \<lparr>proc = p3, current_chapter = chp, current_section = secp\<rparr>"
    using rp
    unfolding p3_def xs3_def secp_def p2_def xs2_def ssp[symmetric] chp_def p1_def xs1_def cs_def
    by (simp add: page_effect_def Let_def cong: option.case_cong)
  show ?thesis unfolding eq ep sim_build_def using s3 ch sec by simp
qed

lemma sim_pages_loop:
  assumes "sim_build k m0 bp bq" "cursors_ok bp" "cursors_ok bq"
  shows "sim_build k m0 (pages_loop xs bp) (pages_loop xs bq)"
  using assms
proof (induction xs arbitrary: bp bq)
  case Nil
  then show ?case by simp
next
  case (Cons x xs)
  obtain n pc where x: "x = (n, pc)" by (cases x)
  have ep: "process_page n pc bp = page_effect n (page_text_of pc) bp"
    and okp: "cursors_ok (page_effect n (page_text_of pc) bp)"
    using process_page_eq[OF Cons.prems(2)] by simp_all
  have eq: "process_page n pc bq = page_effect n (page_text_of pc) bq"
    and okq: "cursors_ok (page_effect n (page_text_of pc) bq)"
    using process_page_eq[OF Cons.prems(3)] by simp_all
  show ?case
    using Cons.IH[OF sim_page_effect[OF Cons.prems(1)] okp okq] x ep eq by simp
qed

lemma sim_start_build:
  assumes "fresh p"
  shows "sim_build (uuid_count p) (node_map p) (start_build t p) (start_build t init_processor)"
proof -
  let ?k = "uuid_count p"
  have "node_map (proc (start_build t p)) (?k + i)
          = map_option (shift_node ?k) (node_map (proc (start_build t init_processor)) i)" for i
    using assms by (cases "i = 0") (simp_all add: start_build_def init_processor_def shift_node_def fresh_def)
  then show ?thesis
    by (simp add: sim_build_def sim_def start_build_def init_processor_def)
qed

lemma page_effect_root:
  assumes "cursors_ok b"
  shows "root (proc (page_effect n text b)) = root (proc b)"
  by (rule page_effect_induct[OF assms, where P = "\<lambda>p. root p = root (proc b)"]) simp_all

lemma pages_loop_root:
  "cursors_ok b \<Longrightarrow> root (proc (pages_loop xs b)) = root (proc b)"
proof (induction xs arbitrary: b)
  case Nil
  then show ?case by simp
next
  case (Cons x xs)
  obtain n pc where x: "x = (n, pc)" by (cases x)
  have eq: "process_page n pc b = page_effect n (page_text_of pc) b"
    and ok: "cursors_ok (page_effect n (page_text_of pc) b)"
    using process_page_eq[OF Cons.prems] by simp_all
  show ?case
    using Cons.IH[OF ok] page_effect_root[OF Cons.prems] x eq by simp
qed

subsection \<open>Serialisation and the batch loop\<close>

lemma those_map_Some:
  "(\<forall>c \<in> set cs. \<exists>d. f c = Some d) \<Longrightarrow> \<exists>ds. those (map f cs) = Some ds"
  by (induction cs) auto

lemma child_type_of_rank: "child_type_of a = Some b \<Longrightarrow> Suc (rank b) = rank a"
  by (auto simp: child_type_of_def rank_def split: if_splits)

lemma node_to_dict_wf:
  assumes "wf p"
  shows "node_map p i = Some nd \<Longrightarrow> rank (node_type nd) \<le> n \<Longrightarrow>
           \<exists>ds. node_to_dict n (node_map p) i
                   = Some (NodeDict (title nd) (content nd) (node_type nd) (node_id nd)
                             (parent_id nd) (page_number nd) (metadata nd) ds)"
proof (induction n arbitrary: i nd)
  case 0
  then show ?case by (simp add: rank_def split: if_splits)
next
  case (Suc n)
  have ok: "node_ok (node_map p) i nd" using wf_node_ok[OF assms Suc.prems(1)] .
  have "\<forall>c \<in> set (children nd). \<exists>d. node_to_dict n (node_map p) c = Some d"
  proof
    fix c assume "c \<in> set (children nd)"
    then obtain cn where cn: "node_map p c = Some cn"
        "child_type_of (node_type nd) = Some (node_type cn)"
      using ok by (auto simp: node_ok_def)
    have "rank (node_type cn) \<le> n"
      using child_type_of_rank[OF cn(2)] Suc.prems(2) by simp
    then show "\<exists>d. node_to_dict n (node_map p) c = Some d"
      using Suc.IH[OF cn(1)] by blast
  qed
  then obtain ds where "those (map (node_to_dict n (node_map p)) (children nd)) = Some ds"
    using those_map_Some by blast
  then show ?case using Suc.prems(1) by simp
qed

lemma page_effect_logs:
  assumes "cursors_ok b"
  shows "logs (proc (page_effect n text b)) = logs (proc b)"
  by (rule page_effect_induct[OF assms, where P = "\<lambda>p. logs p = logs (proc b)"]) simp_all

lemma pages_loop_logs:
  "cursors_ok b \<Longrightarrow> logs (proc (pages_loop xs b)) = logs (proc b)"
proof (induction xs arbitrary: b)
  case Nil
  then show ?case by simp
next
  case (Cons x xs)
  obtain n pc where x: "x = (n, pc)" by (cases x)
  have eq: "process_page n pc b = page_effect n (page_text_of pc) b"
    and ok: "cursors_ok (page_effect n (page_text_of pc) b)"
    using process_page_eq[OF Cons.prems] by simp_all
  show ?case
    using Cons.IH[OF ok] page_effect_logs[OF Cons.prems] x eq by simp
qed

lemma create_textbook_structure_root:
  assumes "wf p"
  shows "root (create_textbook_structure t c p) = Some (uuid_count p)"
    and "\<exists>cs. node_map (create_textbook_structure t c p) (uuid_count p)
           = Some \<lparr>title = t, content = None, node_type = ''root'', node_id = uuid_count p,
                   parent_id = None, children = cs, page_number = [], metadata = []\<rparr>"
    and "logs (create_textbook_structure t c p) = logs p"
proof -
  let ?xs = "List.enumerate 1 (tl (split_str ''[PAGE_'' c))"
  note ok = start_build_cursors_ok[OF assms, of t]
  show "root (create_textbook_structure t c p) = Some (uuid_count p)"
    unfolding create_textbook_structure_start using pages_loop_root[OF ok, of ?xs]
    by (simp add: start_build_def)
  have "node_map (proc (start_build t p)) (uuid_count p)
          = Some \<lparr>title = t, content = None, node_type = ''root'', node_id = uuid_count p,
                   parent_id = None, children = [], page_number = [], metadata = []\<rparr>"
    by (simp add: start_build_def)
  then show "\<exists>cs. node_map (create_textbook_structure t c p) (uuid_count p)
           = Some \<lparr>title = t, content = None, node_type = ''root'', node_id = uuid_count p,
                   parent_id = None, children = cs, page_number = [], metadata = []\<rparr>"
    unfolding create_textbook_structure_start
    using pages_loop_keeps_nodes[OF ok, of ?xs] unfolding keeps_nodes_def by fastforce
  show "logs (create_textbook_structure t c p) = logs p"
    unfolding create_textbook_structure_start using pages_loop_logs[OF ok, of ?xs]
    by (simp add: start_build_def)
qed

lemma wf_logging [simp]: "wf (logging lv msg p) = wf p"
  by (simp add: wf_def fresh_def logging_def)

lemma save_to_file_created:
  assumes "wf (wproc w)" "4 \<le> recursion_limit e" "open_write_ok e filename"
    "root (wproc w) = Some r"
    "node_map (wproc w) r = Some nd" "node_type nd = ''root''"
  shows "\<exists>d. save_to_file e filename w
           = (None, wlog INFO (''Structure saved to '' @ filename @ ''.'')
                      (w\<lparr>written := written w @ [(filename, d)]\<rparr>))
         \<and> d_title d = title nd
         \<and> node_to_dict (recursion_limit e) (node_map (wproc w)) r = Some d"
proof -
  have "rank (node_type nd) \<le> recursion_limit e" using assms(2,6) by (simp add: rank_def)
  from node_to_dict_wf[OF assms(1,5) this]
  obtain ds where nd: "node_to_dict (recursion_limit e) (node_map (wproc w)) r
                   = Some (NodeDict (title nd) (content nd) (node_type nd) (node_id nd)
                             (parent_id nd) (page_number nd) (metadata nd) ds)" by blast
  then have "save_to_file e filename w
           = (None, wlog INFO (''Structure saved to '' @ filename @ ''.'')
                      (w\<lparr>written := written w @ [(filename,
                         NodeDict (title nd) (content nd) (node_type nd) (node_id nd)
                             (parent_id nd) (page_number nd) (metadata nd) ds)]\<rparr>))"
    using assms(3,4) by (simp add: save_to_file_def)
  moreover have "d_title (NodeDict (title nd) (content nd) (node_type nd) (node_id nd)
                             (parent_id nd) (page_number nd) (metadata nd) ds) = title nd"
    by simp
  ultimately show ?thesis using nd by blast
qed

lemma logs_extend_refl: "logs_extend w w"
  by (simp add: logs_extend_def)

lemma logs_extend_trans: "logs_extend w w1 \<Longrightarrow> logs_extend w1 w2 \<Longrightarrow> logs_extend w w2"
  by (auto simp: logs_extend_def)

lemma logs_extend_wlog: "logs_extend w w1 \<Longrightarrow> logs_extend w (wlog lv msg w1)"
  by (auto simp: logs_extend_def wlog_def logging_def)

lemma wlog_fields [simp]:
  "written (wlog lv msg w) = written w" "dir_exists (wlog lv msg w) = dir_exists w"
  "wf (wproc (wlog lv msg w)) = wf (wproc w)"
  "root (wproc (wlog lv msg w)) = root (wproc w)"
  "node_map (wproc (wlog lv msg w)) = node_map (wproc w)"
  "uuid_count (wproc (wlog lv msg w)) = uuid_count (wproc w)"
  by (simp_all add: wlog_def logging_def wf_def fresh_def)

lemma those_map_option:
  "those (map (\<lambda>c. map_option f (g c)) cs) = map_option (map f) (those (map g cs))"
  by (induction cs) (auto split: option.splits simp: option.map_comp comp_def)

lemma node_to_dict_shift:
  assumes "\<And>i. mp (k + i) = map_option (shift_node k) (mq i)"
  shows "node_to_dict n mp (k + r) = map_option (shift_dict k) (node_to_dict n mq r)"
proof (induction n arbitrary: r)
  case 0
  then show ?case by simp
next
  case (Suc n)
  show ?case
  proof (cases "mq r")
    case None
    then have "mp (k + r) = None" using assms[of r] by simp
    then show ?thesis using None by simp
  next
    case (Some nd)
    then have mp: "mp (k + r) = Some (shift_node k nd)" using assms[of r] by simp
    have "map (node_to_dict n mp) (children (shift_node k nd))
            = map (\<lambda>c. map_option (shift_dict k) (node_to_dict n mq c)) (children nd)"
      using Suc.IH by (simp add: shift_node_def)
    then have "those (map (node_to_dict n mp) (children (shift_node k nd)))
            = map_option (map (shift_dict k)) (those (map (node_to_dict n mq) (children nd)))"
      by (simp add: those_map_option)
    then show ?thesis
      using Some mp by (simp add: shift_node_def split: option.splits)
  qed
qed

lemma create_textbook_structure_sim:
  assumes "wf p"
  shows "sim (uuid_count p) (node_map p) (create_textbook_structure t c p)
           (create_textbook_structure t c init_processor)"
  using sim_pages_loop[OF sim_start_build[OF wf_fresh[OF assms]]
      start_build_cursors_ok[OF assms] start_build_cursors_ok[OF init_processor_wf],
      where xs = "List.enumerate 1 (tl (split_str ''[PAGE_'' c))"]
  by (simp add: create_textbook_structure_start sim_build_def)

lemma document_tree_Some:
  assumes "4 \<le> recursion_limit e" "read_text e txt_path = Inr content'"
  shows "\<exists>d. document_tree e txt_path = Some d \<and> d_title d = stem e txt_path"
proof -
  let ?q = "create_textbook_structure (stem e txt_path) content' init_processor"
  have wfq: "wf ?q" using create_textbook_structure_wf[OF init_processor_wf] .
  obtain cs where nd: "node_map ?q 0
         = Some \<lparr>title = stem e txt_path, content = None, node_type = ''root'',
                 node_id = 0, parent_id = None, children = cs,
                 page_number = [], metadata = []\<rparr>"
    using create_textbook_structure_root(2)[OF init_processor_wf, of "stem e txt_path" content']
    by (auto simp: init_processor_def)
  have "rank ''root'' \<le> recursion_limit e" using assms(1) by (simp add: rank_def)
  then obtain ds where "node_to_dict (recursion_limit e) (node_map ?q) 0
                   = Some (NodeDict (stem e txt_path) None ''root'' 0 None [] [] ds)"
    using node_to_dict_wf[OF wfq nd, of "recursion_limit e"] by auto
  then show ?thesis using assms(2) by (simp add: document_tree_def)
qed

lemma process_one_ok:
  assumes "wf (wproc w)" "4 \<le> recursion_limit e"
    and "doc_ok e output_dir (ready_for e output_dir w) txt_path"
  shows "\<exists>w' d. process_one e output_dir txt_path w = (None, w')
           \<and> document_tree e txt_path = Some d
           \<and> written w' = written w
                 @ [(output_path_of e output_dir txt_path, shift_dict (uuid_count (wproc w)) d)]
           \<and> d_title d = stem e txt_path
           \<and> uuid_count (wproc w')
                 = uuid_count (wproc w) + ids_issued e (ready_for e output_dir w) txt_path
           \<and> wf (wproc w') \<and> ready_for e output_dir w' \<and> logs_extend w w'"
proof -
  from assms(3) obtain content' where
      rd: "ready_for e output_dir w" "path_exists e txt_path" "read_text e txt_path = Inr content'"
      "open_write_ok e (output_path_of e output_dir txt_path)"
    by (auto simp: doc_ok_def split: sum.splits)
  define w1 where "w1 = w\<lparr>dir_exists := (dir_exists w)(output_dir := True)\<rparr>"
  define w2 where "w2 = wlog INFO (''Processing textbook '' @ txt_path @ ''...'') w1"
  define w4 where "w4 = wlog INFO (''Building hierarchical structure for '' @ stem e txt_path @ ''...'') w2"
  define w5 where "w5 = w4\<lparr>wproc := create_textbook_structure (stem e txt_path) content' (wproc w4)\<rparr>"
  have wf4: "wf (wproc w4)" using assms(1) by (simp add: w4_def w2_def w1_def)
  have wf5: "wf (wproc w5)" using create_textbook_structure_wf[OF wf4] by (simp add: w5_def)
  have le: "logs_extend w w4"
    unfolding w4_def w2_def
    by (intro logs_extend_wlog) (simp add: logs_extend_def w1_def)
  have le5: "logs_extend w w5"
    using le create_textbook_structure_root(3)[OF wf4] by (simp add: logs_extend_def w5_def)
  obtain cs where root5: "root (wproc w5) = Some (uuid_count (wproc w4))"
      "node_map (wproc w5) (uuid_count (wproc w4))
         = Some \<lparr>title = stem e txt_path, content = None, node_type = ''root'',
                 node_id = uuid_count (wproc w4), parent_id = None, children = cs,
                 page_number = [], metadata = []\<rparr>"
    using create_textbook_structure_root(1,2)[OF wf4, of "stem e txt_path" content']
    by (auto simp: w5_def)
  from save_to_file_created[OF wf5 assms(2) rd(4) root5]
  obtain d where d: "save_to_file e (output_path_of e output_dir txt_path) w5
           = (None, wlog INFO (''Structure saved to '' @ output_path_of e output_dir txt_path @ ''.'')
                      (w5\<lparr>written := written w5 @ [(output_path_of e output_dir txt_path, d)]\<rparr>))"
      "d_title d = stem e txt_path"
      "node_to_dict (recursion_limit e) (node_map (wproc w5)) (uuid_count (wproc w4)) = Some d"
    by auto
  define k where "k = uuid_count (wproc w)"
  have k4: "uuid_count (wproc w4) = k" by (simp add: k_def w4_def w2_def w1_def)
  let ?q = "create_textbook_structure (stem e txt_path) content' init_processor"
  have sm: "sim k (node_map (wproc w4)) (wproc w5) ?q"
    using create_textbook_structure_sim[OF wf4, of "stem e txt_path" content']
    by (simp add: w5_def k4)
  have "node_to_dict (recursion_limit e) (node_map (wproc w5)) (k + 0)
          = map_option (shift_dict k) (node_to_dict (recursion_limit e) (node_map ?q) 0)"
    using sm by (intro node_to_dict_shift) (simp add: sim_def)
  then have "Some d = map_option (shift_dict k) (document_tree e txt_path)"
    using d(3) rd(3) by (auto simp: document_tree_def k4)
  then obtain d0 where d0: "document_tree e txt_path = Some d0" "d = shift_dict k d0"
    by (cases "document_tree e txt_path") auto
  have t0: "d_title d0 = stem e txt_path" using d(2) d0(2) by (cases d0) simp
  have ids: "ids_issued e (ready_for e output_dir w) txt_path = uuid_count ?q"
    using rd(1,2,3) by (simp add: ids_issued_def)
  have cnt5: "uuid_count (wproc w5) = k + uuid_count ?q" using sm by (simp add: sim_def)
  define w6 where "w6 = wlog INFO (''Structure saved to '' @ output_path_of e output_dir txt_path @ ''.'')
                      (w5\<lparr>written := written w5 @ [(output_path_of e output_dir txt_path, d)]\<rparr>)"
  define w7 where "w7 = wlog INFO (''Textbook '' @ stem e txt_path @ '' processed successfully.'') w6"
  have ex: "extract_parse_content e txt_path w2 = (Inr content', w2)"
    using rd(2,3) by (simp add: extract_parse_content_def)
  have res: "process_one e output_dir txt_path w = (None, w7)"
    using rd(1) ex d(1)
    unfolding process_one_def ready_for_def Let_def w1_def[symmetric] w2_def[symmetric]
    by (simp del: append.simps
          add: w4_def[symmetric] w5_def[symmetric] w6_def[symmetric] w7_def[symmetric])
  have wr: "written w7 = written w @ [(output_path_of e output_dir txt_path, d)]"
    by (simp add: w7_def w6_def w5_def w4_def w2_def w1_def)
  have wf7: "wf (wproc w7)" using wf5 by (simp add: w7_def w6_def wlog_def)
  have rdy: "ready_for e output_dir w7"
    by (simp add: ready_for_def w7_def w6_def w5_def w4_def w2_def w1_def)
  have le7: "logs_extend w w7"
    unfolding w7_def w6_def
    using le5 by (intro logs_extend_wlog) (simp add: logs_extend_def)
  have cnt7: "uuid_count (wproc w7) = uuid_count (wproc w)
                 + ids_issued e (ready_for e output_dir w) txt_path"
    using cnt5 ids by (simp add: w7_def w6_def k_def)
  have wr': "written w7 = written w
               @ [(output_path_of e output_dir txt_path, shift_dict (uuid_count (wproc w)) d0)]"
    using wr d0(2) by (simp add: k_def)
  show ?thesis using res d0(1) wr' t0 cnt7 wf7 rdy le7 by blast
qed

lemma process_one_fail:
  assumes "wf (wproc w)"
    and "\<not> doc_ok e output_dir (ready_for e output_dir w) txt_path"
  shows "\<exists>x w'. process_one e output_dir txt_path w = (Some x, w')
           \<and> written w' = written w \<and> wf (wproc w')
           \<and> uuid_count (wproc w')
                 = uuid_count (wproc w) + ids_issued e (ready_for e output_dir w) txt_path
           \<and> ready_for e output_dir w' = ready_for e output_dir w \<and> logs_extend w w'"
proof (cases "ready_for e output_dir w")
  case False
  then have "process_one e output_dir txt_path w
               = (Some (OSError (''cannot create '' @ output_dir)), w)"
    by (simp add: process_one_def ready_for_def)
  moreover have "ids_issued e (ready_for e output_dir w) txt_path = 0"
    using False by (simp add: ids_issued_def)
  ultimately show ?thesis using assms(1) logs_extend_refl by auto
next
  case True
  define w1 where "w1 = w\<lparr>dir_exists := (dir_exists w)(output_dir := True)\<rparr>"
  define w2 where "w2 = wlog INFO (''Processing textbook '' @ txt_path @ ''...'') w1"
  have base: "written w2 = written w" "wf (wproc w2)" "ready_for e output_dir w2" "logs_extend w w2"
    using assms(1) by (simp_all add: w2_def w1_def ready_for_def logs_extend_def wlog_def logging_def
        wf_def fresh_def)
  have u2: "uuid_count (wproc w2) = uuid_count (wproc w)" by (simp add: w2_def w1_def)
  have step: "process_one e output_dir txt_path w =
     (case extract_parse_content e txt_path w2 of
              (Inl x, w3) \<Rightarrow> (Some x, w3)
            | (Inr content', w3) \<Rightarrow>
                let title' = stem e txt_path;
                    w4 = wlog INFO (''Building hierarchical structure for '' @ title' @ ''...'') w3;
                    w5 = w4\<lparr>wproc := create_textbook_structure title' content' (wproc w4)\<rparr>
                in (case save_to_file e (output_path_of e output_dir txt_path) w5 of
                      (Some x, w6) \<Rightarrow> (Some x, w6)
                    | (None, w6) \<Rightarrow>
                        (None, wlog INFO (''Textbook '' @ title' @ '' processed successfully.'') w6)))"
    using True unfolding process_one_def ready_for_def Let_def w1_def[symmetric] w2_def[symmetric]
    by (auto simp del: append.simps)
  show ?thesis
  proof (cases "path_exists e txt_path")
    case False
    then have "process_one e output_dir txt_path w
      = (Some (FileNotFoundError (''Text file '' @ txt_path @ '' not found.'')),
            wlog ERROR (''Text file '' @ txt_path @ '' not found.'') w2)"
      unfolding step by (simp del: append.simps add: extract_parse_content_def)
    moreover have "logs_extend w (wlog ERROR (''Text file '' @ txt_path @ '' not found.'') w2)"
      using base(4) by (rule logs_extend_wlog)
    moreover have "ids_issued e (ready_for e output_dir w) txt_path = 0"
      using False by (simp add: ids_issued_def)
    ultimately show ?thesis using base True u2 by (simp add: ready_for_def)
  next
    case ex: True
    show ?thesis
    proof (cases "read_text e txt_path")
      case (Inl x)
      then have "process_one e output_dir txt_path w = (Some x, w2)"
        unfolding step using ex by (simp add: extract_parse_content_def)
      moreover have "ids_issued e (ready_for e output_dir w) txt_path = 0"
        using Inl by (simp add: ids_issued_def)
      ultimately show ?thesis using base True u2 by simp
    next
      case (Inr content')
      define w4 where "w4 = wlog INFO (''Building hierarchical structure for '' @ stem e txt_path @ ''...'') w2"
      define w5 where "w5 = w4\<lparr>wproc := create_textbook_structure (stem e txt_path) content' (wproc w4)\<rparr>"
      define fn where "fn = output_path_of e output_dir txt_path"
      have nw: "\<not> open_write_ok e fn"
        using assms(2) True ex Inr by (simp add: doc_ok_def fn_def)
      have wf4: "wf (wproc w4)" using base(2) by (simp add: w4_def)
      have wf5: "wf (wproc w5)" using create_textbook_structure_wf[OF wf4] by (simp add: w5_def)
      have le5: "logs_extend w w5"
        using logs_extend_wlog[OF base(4), of INFO "''Building hierarchical structure for '' @ stem e txt_path @ ''...''"]
          create_textbook_structure_root(3)[OF wf4]
        by (simp add: logs_extend_def w5_def w4_def)
      define w6 where "w6 = wlog ERROR (''Error saving to '' @ fn @ '': '' @ str_error (OSError (''cannot open '' @ fn))) w5"
      have sv: "save_to_file e fn w5 = (Some (OSError (''cannot open '' @ fn)), w6)"
        using nw by (simp del: append.simps add: save_to_file_def save_failed_def w6_def)
      have "process_one e output_dir txt_path w = (Some (OSError (''cannot open '' @ fn)), w6)"
        unfolding step using ex Inr sv
        by (simp del: append.simps add: extract_parse_content_def Let_def w4_def[symmetric]
              w5_def[symmetric] fn_def[symmetric])
      moreover have "written w6 = written w" using base(1) by (simp add: w6_def w5_def w4_def)
      moreover have "wf (wproc w6)" using wf5 by (simp add: w6_def)
      moreover have "ready_for e output_dir w6"
        using base(3) by (simp add: ready_for_def w6_def w5_def w4_def)
      moreover have "logs_extend w w6" unfolding w6_def using le5 by (rule logs_extend_wlog)
      moreover have "uuid_count (wproc w6)
                 = uuid_count (wproc w) + ids_issued e (ready_for e output_dir w) txt_path"
      proof -
        have "uuid_count (wproc w4) = uuid_count (wproc w)" using u2 by (simp add: w4_def)
        moreover have "sim (uuid_count (wproc w4)) (node_map (wproc w4)) (wproc w5)
                 (create_textbook_structure (stem e txt_path) content' init_processor)"
          using create_textbook_structure_sim[OF wf4, of "stem e txt_path" content']
          by (simp add: w5_def)
        moreover have "ids_issued e (ready_for e output_dir w) txt_path
                 = uuid_count (create_textbook_structure (stem e txt_path) content' init_processor)"
          using True ex Inr by (simp add: ids_issued_def)
        ultimately show ?thesis by (simp add: w6_def sim_def)
      qed
      ultimately show ?thesis using True by simp
    qed
  qed
qed

lemma failure_logged_extend:
  "failure_logged txt_path w \<Longrightarrow> logs_extend w w' \<Longrightarrow> failure_logged txt_path w'"
  by (auto simp: failure_logged_def logs_extend_def)

lemma doc_ok_ready_cong:
  "ready = ready' \<Longrightarrow> filter (doc_ok e output_dir ready) xs = filter (doc_ok e output_dir ready') xs"
  by simp

lemma d_title_shift_dict [simp]: "d_title (shift_dict k d) = d_title d"
  by (cases d) simp

lemma textbooks_loop_result:
  assumes "4 \<le> recursion_limit e"
  shows "wf (wproc w) \<Longrightarrow>
    (let w' = textbooks_loop e output_dir txt_paths w;
         good = filter (doc_ok e output_dir (ready_for e output_dir w)) txt_paths
     in written w' = written w
          @ batch_records e output_dir (ready_for e output_dir w) (uuid_count (wproc w)) txt_paths
        \<and> map fst (written w') = map fst (written w) @ map (output_path_of e output_dir) good
        \<and> map (\<lambda>r. d_title (snd r)) (written w')
            = map (\<lambda>r. d_title (snd r)) (written w) @ map (stem e) good
        \<and> logs_extend w w'
        \<and> (\<forall>txt_path \<in> set txt_paths.
              \<not> doc_ok e output_dir (ready_for e output_dir w) txt_path
              \<longrightarrow> failure_logged txt_path w'))"
proof (induction txt_paths arbitrary: w)
  case Nil
  then show ?case by (simp add: logs_extend_refl)
next
  case (Cons txt_path rest)
  let ?ready = "ready_for e output_dir w"
  let ?u = "uuid_count (wproc w)"
  let ?good = "filter (doc_ok e output_dir ?ready) (txt_path # rest)"
  obtain w1 where
      loop: "textbooks_loop e output_dir (txt_path # rest) w = textbooks_loop e output_dir rest w1"
      and wf1: "wf (wproc w1)" and rdy: "ready_for e output_dir w1 = ?ready"
      and u1: "uuid_count (wproc w1) = ?u + ids_issued e ?ready txt_path"
      and le1: "logs_extend w w1"
      and wr1: "written w1 = written w @ batch_records e output_dir ?ready ?u [txt_path]"
      and p1: "map fst (written w1)
                 = map fst (written w) @ map (output_path_of e output_dir)
                     (filter (doc_ok e output_dir ?ready) [txt_path])"
      and t1: "map (\<lambda>r. d_title (snd r)) (written w1)
                 = map (\<lambda>r. d_title (snd r)) (written w) @ map (stem e)
                     (filter (doc_ok e output_dir ?ready) [txt_path])"
      and f1: "\<not> doc_ok e output_dir ?ready txt_path \<longrightarrow> failure_logged txt_path w1"
  proof (cases "doc_ok e output_dir ?ready txt_path")
    case True
    from process_one_ok[OF Cons.prems assms True]
    obtain w1 d where w1: "process_one e output_dir txt_path w = (None, w1)"
        "document_tree e txt_path = Some d"
        "written w1 = written w
           @ [(output_path_of e output_dir txt_path, shift_dict (uuid_count (wproc w)) d)]"
        "d_title d = stem e txt_path"
        "uuid_count (wproc w1) = uuid_count (wproc w) + ids_issued e ?ready txt_path"
        "wf (wproc w1)" "ready_for e output_dir w1" "logs_extend w w1"
      by blast
    have "ready_for e output_dir w1 = ?ready" using w1(7) True by (simp add: doc_ok_def)
    moreover have "textbooks_loop e output_dir (txt_path # rest) w
                     = textbooks_loop e output_dir rest w1"
      using w1(1) by simp
    ultimately show ?thesis using that[of w1] w1 True by simp
  next
    case False
    from process_one_fail[OF Cons.prems False]
    obtain x w1 where w1: "process_one e output_dir txt_path w = (Some x, w1)"
        "written w1 = written w" "wf (wproc w1)"
        "uuid_count (wproc w1) = uuid_count (wproc w) + ids_issued e ?ready txt_path"
        "ready_for e output_dir w1 = ?ready" "logs_extend w w1"
      by blast
    define w2 where "w2 = wlog ERROR (''Failed to process '' @ txt_path @ '': '' @ str_error x) w1"
    have loop: "textbooks_loop e output_dir (txt_path # rest) w = textbooks_loop e output_dir rest w2"
      using w1(1) by (simp del: append.simps add: w2_def)
    have w2: "written w2 = written w" "wf (wproc w2)" "ready_for e output_dir w2 = ?ready"
      "logs_extend w w2" "failure_logged txt_path w2"
      using w1 logs_extend_wlog[OF w1(6)]
      by (simp_all del: append.simps
            add: w2_def ready_for_def failure_logged_def wlog_def logging_def wf_def fresh_def) blast
    have u2: "uuid_count (wproc w2) = uuid_count (wproc w) + ids_issued e ?ready txt_path"
      using w1(4) by (simp add: w2_def)
    show ?thesis using that[of w2] loop w2 u2 False by simp
  qed
  let ?W = "textbooks_loop e output_dir rest w1"
  note IH = Cons.IH[OF wf1, unfolded Let_def rdy u1]
  have i1: "written ?W = written w1
              @ batch_records e output_dir ?ready (?u + ids_issued e ?ready txt_path) rest"
    and i2: "map fst (written ?W) = map fst (written w1)
              @ map (output_path_of e output_dir) (filter (doc_ok e output_dir ?ready) rest)"
    and i3: "map (\<lambda>r. d_title (snd r)) (written ?W) = map (\<lambda>r. d_title (snd r)) (written w1)
              @ map (stem e) (filter (doc_ok e output_dir ?ready) rest)"
    and i4: "logs_extend w1 ?W"
    and i5: "\<forall>p \<in> set rest. \<not> doc_ok e output_dir ?ready p \<longrightarrow> failure_logged p ?W"
    using IH by blast+
  have c1: "written ?W = written w @ batch_records e output_dir ?ready ?u (txt_path # rest)"
    unfolding i1 wr1 by simp
  have c2: "map fst (written ?W) = map fst (written w) @ map (output_path_of e output_dir) ?good"
    unfolding i2 p1 by simp
  have c3: "map (\<lambda>r. d_title (snd r)) (written ?W)
              = map (\<lambda>r. d_title (snd r)) (written w) @ map (stem e) ?good"
    unfolding i3 t1 by simp
  have c4: "logs_extend w ?W" using logs_extend_trans[OF le1 i4] .
  have c5: "\<forall>p \<in> set (txt_path # rest). \<not> doc_ok e output_dir ?ready p \<longrightarrow> failure_logged p ?W"
    using i5 f1 failure_logged_extend[OF _ i4] by auto
  show ?case unfolding Let_def loop using c1 c2 c3 c4 c5 by blast
qed

subsection \<open>The section patterns on a heading line\<close>





lemma run_length_Nil: "run_length P [] = 0"
  by (simp add: run_length_def)
















section \<open>Examples\<close>

subsection \<open>The two-page example, evaluated\<close>

lemma two_page_nodes:
  "map (node_map (processor_after [(''T'', two_page_text)])) [0, 1, 2, 3, 4, 5] =
     [Some \<lparr>title = ''T'', content = None, node_type = ''root'', node_id = 0,
             parent_id = None, children = [1, 3], page_number = [], metadata = []\<rparr>,
      Some \<lparr>title = ''Chapter: A'', content = None, node_type = ''chapter'', node_id = 1,
             parent_id = Some 0, children = [2], page_number = [1], metadata = []\<rparr>,
      Some \<lparr>title = ''Section: S'', content = None, node_type = ''section'', node_id = 2,
             parent_id = Some 1, children = [4], page_number = [1], metadata = []\<rparr>,
      Some \<lparr>title = ''Chapter: B'', content = None, node_type = ''chapter'', node_id = 3,
             parent_id = Some 0, children = [], page_number = [2], metadata = []\<rparr>,
      Some \<lparr>title = ''Content from page 2'', content = Some (replicate 101 (CHR ''x'')),
             node_type = ''leaf'', node_id = 4, parent_id = Some 2, children = [],
             page_number = [2], metadata = []\<rparr>,
      None]"
  by code_simp

lemma after_first_page_state:
  "(current_chapter after_first_page, current_section after_first_page,
    root (proc after_first_page), uuid_count (proc after_first_page),
    map (node_map (proc after_first_page)) [0, 1, 2, 3]) =
   (Some 1, Some 2, Some 0, 3,
    [Some \<lparr>title = ''T'', content = None, node_type = ''root'', node_id = 0,
            parent_id = None, children = [1], page_number = [], metadata = []\<rparr>,
     Some \<lparr>title = ''Chapter: A'', content = None, node_type = ''chapter'', node_id = 1,
            parent_id = Some 0, children = [2], page_number = [1], metadata = []\<rparr>,
     Some \<lparr>title = ''Section: S'', content = None, node_type = ''section'', node_id = 2,
            parent_id = Some 1, children = [], page_number = [1], metadata = []\<rparr>,
     None])"
  by code_simp

lemma page_two_matches:
  "(finditer chapter_re None (page_text_of page_two),
    finditer section_re None (page_text_of page_two),
    filter (\<lambda>para. 100 < length para) (paragraphs (page_text_of page_two)),
    map length (paragraphs (page_text_of page_two))) =
   ([''B''], [], [replicate 101 (CHR ''x'')], [12, 101, 100])"
  by code_simp

lemma after_first_page_cursors_ok: "cursors_ok after_first_page"
  unfolding after_first_page_def
  using pages_loop_cursors_ok[OF start_build_cursors_ok[OF init_processor_wf]] .

lemma second_page_state:
  "(current_chapter (process_page 2 page_two after_first_page),
    current_section (process_page 2 page_two after_first_page),
    uuid_count (proc (process_page 2 page_two after_first_page))) = (Some 3, Some 2, 5)"
  by code_simp

subsection \<open>The scenario of the specification, evaluated\<close>

lemma scenario_matches:
  "(tl (split_str ''[PAGE_'' scenario_text),
    finditer chapter_re None (page_text_of scenario_page),
    finditer section_re None (page_text_of scenario_page)) =
   ([scenario_page], [''Intro''], [])"
  by code_simp

lemma scenario_state:
  "create_textbook_structure doc_title scenario_text init_processor =
     \<lparr>root = Some 0,
      node_map = [0 \<mapsto> \<lparr>title = doc_title, content = None, node_type = ''root'', node_id = 0,
                         parent_id = None, children = [1], page_number = [], metadata = []\<rparr>,
                  1 \<mapsto> \<lparr>title = ''Chapter: Intro'', content = None, node_type = ''chapter'',
                         node_id = 1, parent_id = Some 0, children = [], page_number = [1],
                         metadata = []\<rparr>],
      uuid_count = 2, logs = []\<rparr>"
proof -
  let ?b = "start_build doc_title init_processor"
  have pieces: "tl (split_str ''[PAGE_'' scenario_text) = [scenario_page]"
    and cs: "finditer chapter_re None (page_text_of scenario_page) = [''Intro'']"
    and ss: "finditer section_re None (page_text_of scenario_page) = []"
    using scenario_matches by simp_all
  have ok: "cursors_ok ?b" using start_build_cursors_ok[OF init_processor_wf] .
  have "create_textbook_structure doc_title scenario_text init_processor
          = proc (process_page 1 scenario_page ?b)"
    by (simp add: create_textbook_structure_start pieces enumerate_eq_zip)
  also have "\<dots> = proc (page_effect 1 (page_text_of scenario_page) ?b)"
    using process_page_eq(1)[OF ok] by simp
  also have "\<dots> = \<lparr>root = Some 0,
      node_map = [0 \<mapsto> \<lparr>title = doc_title, content = None, node_type = ''root'', node_id = 0,
                         parent_id = None, children = [1], page_number = [], metadata = []\<rparr>,
                  1 \<mapsto> \<lparr>title = ''Chapter: Intro'', content = None, node_type = ''chapter'',
                         node_id = 1, parent_id = Some 0, children = [], page_number = [1],
                         metadata = []\<rparr>],
      uuid_count = 2, logs = []\<rparr>"
    by (simp add: page_effect_def cs ss Let_def last_created_def start_build_def
        init_processor_def with_child_def)
  finally show ?thesis .
qed

subsection \<open>The document with the marker 7, evaluated\<close>


subsection \<open>A batch of documents, evaluated\<close>

lemma after_one_document:
  "(uuid_count (processor_after [(''A'', marker_seven_text)]),
    node_map (processor_after [(''A'', marker_seven_text)]) 0) =
   (2, Some \<lparr>title = ''A'', content = None, node_type = ''root'', node_id = 0,
              parent_id = None, children = [1], page_number = [], metadata = []\<rparr>)"
  by code_simp

lemma batch_node_index:
  "(map_option title
      (node_map (wproc (process_textbooks example_env [''a.txt''] ''out'' empty_world)) 0),
    root (wproc (process_textbooks example_env [''a.txt'', ''c.txt''] ''out'' empty_world)),
    map_option title
      (node_map (wproc (process_textbooks example_env [''a.txt'', ''c.txt''] ''out'' empty_world)) 0)) =
   (Some ''a'', Some 2, Some ''a'')"
  by code_simp

subsection \<open>Heading lines, evaluated\<close>



lemma example_batch_records:
  "batch_records example_env ''out'' True 0 [''a.txt'', ''missing.txt'', ''c.txt''] =
     [(''out/a_structure.json'',
       NodeDict ''a'' None ''root'' 0 None [] []
         [NodeDict ''Chapter: A'' None ''chapter'' 1 (Some 0) [1] [] []]),
      (''out/c_structure.json'',
       NodeDict ''c'' None ''root'' 2 None [] []
         [NodeDict ''Chapter: A'' None ''chapter'' 3 (Some 2) [1] []
            [NodeDict ''Section: S'' None ''section'' 4 (Some 3) [1] []
               [NodeDict ''Content from page 2'' (Some (replicate 101 (CHR ''x''))) ''leaf'' 6
                  (Some 4) [2] [] []]],
          NodeDict ''Chapter: B'' None ''chapter'' 5 (Some 2) [2] [] []])]"
  by code_simp

section \<open>The claims\<close>

text \<open>
  C1, as the code has it. On the scenario input, with any document title, the builder
  produces a tree of exactly two nodes: the root, and one chapter child titled
  \<open>Chapter: Intro\<close> with \<open>page_number\<close> \<open>[1]\<close> and no children. The line \<open>1. Overview\<close> is not
  a section heading for the builder, so no section and no leaf is created.
\<close>

theorem scenario_builds_root_and_chapter_only:
  "root (create_textbook_structure doc_title scenario_text init_processor) = Some 0
   \<and> dom (node_map (create_textbook_structure doc_title scenario_text init_processor)) = {0, 1}
   \<and> node_to_dict 4 (node_map (create_textbook_structure doc_title scenario_text init_processor)) 0
       = Some (NodeDict doc_title None ''root'' 0 None [] []
                [NodeDict ''Chapter: Intro'' None ''chapter'' 1 (Some 0) [1] [] []])"
  unfolding scenario_state
  by (auto simp: numeral_eq_Suc)

text \<open>
  C1, as the specification states it, fails: the tree does not have four nodes, the
  chapter has no section child, and no third node exists.
\<close>

theorem scenario_has_no_section_and_no_leaf:
  "card (dom (node_map (create_textbook_structure ''Doc'' scenario_text init_processor))) \<noteq> 4
   \<and> map_option children
        (node_map (create_textbook_structure ''Doc'' scenario_text init_processor) 1) = Some []
   \<and> node_map (create_textbook_structure ''Doc'' scenario_text init_processor) 2 = None"
  unfolding scenario_state by (auto simp: numeral_eq_Suc)




text \<open>
  C3, as the code has it. One processor serves the whole batch, and its node index is never
  emptied: when a document is built on a processor that has built others, the index still
  holds their nodes and holds them unchanged afterwards. What is new for each document is
  the root and the cursors, and the tree does not depend on what came before: the nodes
  created are those a new processor creates for the same document, with the identifiers
  that follow the \<open>k\<close> already issued.
\<close>

theorem tree_does_not_depend_on_earlier_documents:
  assumes "wf p"
  shows "let k = uuid_count p;
             p' = create_textbook_structure t c p;
             q' = create_textbook_structure t c init_processor
         in root p' = Some k \<and> root q' = Some 0
            \<and> uuid_count p' = k + uuid_count q'
            \<and> (\<forall>i. node_map p' (k + i) = map_option (shift_node k) (node_map q' i))
            \<and> (\<forall>j. j < k \<longrightarrow> node_map p' j = node_map p j)"
proof -
  let ?xs = "List.enumerate 1 (tl (split_str ''[PAGE_'' c))"
  have sb: "sim_build (uuid_count p) (node_map p) (pages_loop ?xs (start_build t p))
              (pages_loop ?xs (start_build t init_processor))"
    using sim_pages_loop[OF sim_start_build[OF wf_fresh[OF assms]]
        start_build_cursors_ok[OF assms] start_build_cursors_ok[OF init_processor_wf]] .
  have rq: "root (create_textbook_structure t c init_processor) = Some 0"
    unfolding create_textbook_structure_start
    using pages_loop_root[OF start_build_cursors_ok[OF init_processor_wf], of ?xs t]
    by (simp add: start_build_def init_processor_def)
  show ?thesis
    using sb rq unfolding Let_def create_textbook_structure_start sim_build_def sim_def
    by simp
qed

theorem tree_does_not_depend_on_earlier_documents_witness:
  "wf (processor_after [(''A'', marker_seven_text)])
   \<and> root (create_textbook_structure ''B'' marker_seven_text
              (processor_after [(''A'', marker_seven_text)])) = Some 2
   \<and> node_map (create_textbook_structure ''B'' marker_seven_text
                  (processor_after [(''A'', marker_seven_text)])) 3
        = map_option (shift_node 2)
            (node_map (create_textbook_structure ''B'' marker_seven_text init_processor) 1)
   \<and> node_map (create_textbook_structure ''B'' marker_seven_text
                  (processor_after [(''A'', marker_seven_text)])) 0
        = node_map (processor_after [(''A'', marker_seven_text)]) 0"
proof -
  let ?p = "processor_after [(''A'', marker_seven_text)]"
  have k: "uuid_count ?p = 2" using after_one_document by simp
  note inst = tree_does_not_depend_on_earlier_documents[OF processor_after_wf,
      of "[(''A'', marker_seven_text)]" "''B''" marker_seven_text, unfolded Let_def k]
  have "node_map (create_textbook_structure ''B'' marker_seven_text ?p) (2 + 1)
        = map_option (shift_node 2)
            (node_map (create_textbook_structure ''B'' marker_seven_text init_processor) 1)"
    using inst by blast
  moreover have "node_map (create_textbook_structure ''B'' marker_seven_text ?p) 0 = node_map ?p 0"
    using inst by simp
  ultimately show ?thesis using inst processor_after_wf by simp
qed

text \<open>
  C3, as the specification states it, fails: in a batch of two documents the builder does
  not start the second document with an empty node index (after the first document the
  index holds the root of the first, under the identifier 0), and the index it leaves
  after the second document, whose root has the identifier 2, still holds that node.
\<close>

theorem node_index_is_shared_by_the_batch:
  "map_option title
     (node_map (wproc (process_textbooks example_env [''a.txt''] ''out'' empty_world)) 0)
     = Some ''a''
   \<and> root (wproc (process_textbooks example_env [''a.txt'', ''c.txt''] ''out'' empty_world))
       = Some 2
   \<and> map_option title
       (node_map (wproc (process_textbooks example_env [''a.txt'', ''c.txt''] ''out'' empty_world)) 0)
       = Some ''a''"
  using batch_node_index by simp




text \<open>
  C5. A new chapter heading leaves the section cursor as it is. When a section is current
  and a page has chapter headings but no section heading, the page creates its chapters
  under the root, the last of them becomes the current chapter, the current section stays
  the one it was, and every paragraph of the page longer than 100 characters becomes a leaf
  whose parent is that earlier section: the leaves are appended to its children, the new
  chapters have no children, and the root gains only the chapters.
\<close>

theorem stale_section_receives_leaves:
  assumes "cursors_ok b" and "current_section b = Some sec"
    and "finditer chapter_re None (page_text_of pc) \<noteq> []"
    and "finditer section_re None (page_text_of pc) = []"
  shows "let b' = process_page n pc b;
             k = uuid_count (proc b);
             nch = length (finditer chapter_re None (page_text_of pc));
             long = filter (\<lambda>para. 100 < length para) (paragraphs (page_text_of pc))
         in current_chapter b' = Some (k + nch - 1) \<and> current_section b' = Some sec
            \<and> uuid_count (proc b') = k + nch + length long
            \<and> (\<forall>i < nch. \<exists>nd. node_map (proc b') (k + i) = Some nd
                   \<and> node_type nd = ''chapter'' \<and> children nd = [])
            \<and> (\<forall>i < length long. node_map (proc b') (k + nch + i)
                  = Some \<lparr>title = ''Content from page '' @ str_nat n, content = Some (long ! i),
                          node_type = ''leaf'', node_id = k + nch + i, parent_id = Some sec,
                          children = [], page_number = [n], metadata = []\<rparr>)
            \<and> (\<exists>sn. node_map (proc b) sec = Some sn \<and> node_type sn = ''section''
                   \<and> node_map (proc b') sec
                       = Some (sn\<lparr>children := children sn @ [k + nch ..< k + nch + length long]\<rparr>))
            \<and> (\<exists>r rn. root (proc b') = Some r \<and> node_map (proc b) r = Some rn
                   \<and> node_map (proc b') r
                       = Some (rn\<lparr>children := children rn @ [k ..< k + nch]\<rparr>))"
proof -
  let ?text = "page_text_of pc"
  define k where "k = uuid_count (proc b)"
  define cs where "cs = finditer chapter_re None ?text"
  define nch where "nch = length cs"
  define long where "long = filter (\<lambda>para. 100 < length para) (paragraphs ?text)"
  define xs where "xs = map (\<lambda>t. (''Chapter: '' @ t, None :: string option)) cs"
  define ys where "ys = map (\<lambda>para. (''Content from page '' @ str_nat n, Some para)) long"
  from assms(1) obtain r rn where r: "root (proc b) = Some r" "node_map (proc b) r = Some rn"
      "node_type rn = ''root''"
    by (auto simp: cursors_ok_def has_type_def)
  from assms(1,2) obtain sn where sn: "node_map (proc b) sec = Some sn" "node_type sn = ''section''"
    by (auto simp: cursors_ok_def has_type_def)
  have fr: "fresh (proc b)" using assms(1) by (simp add: cursors_ok_def wf_def)
  have sec_r: "sec \<noteq> r" using r sn by auto
  have sec_k: "sec < k" "r < k" unfolding k_def using fresh_lt[OF fr] sn r by auto
  define p1 where "p1 = attach_all r ''chapter'' n xs (proc b)"
  define p3 where "p3 = attach_all sec ''leaf'' n ys p1"
  have nch_pos: "nch \<noteq> 0" using assms(3) by (simp add: nch_def cs_def)
  have lenx: "length xs = nch" by (simp add: xs_def nch_def)
  have leny: "length ys = length long" by (simp add: ys_def)
  have eff: "page_effect n ?text b
               = \<lparr>proc = p3, current_chapter = Some (k + nch - 1), current_section = Some sec\<rparr>"
    using r(1) assms(2,4) nch_pos
    unfolding p3_def p1_def xs_def ys_def long_def nch_def cs_def k_def
    by (simp add: page_effect_def Let_def last_created_def)
  have n1: "uuid_count p1 = k + nch
    \<and> node_map p1 r = Some (rn\<lparr>children := children rn @ [k ..< k + nch]\<rparr>)
    \<and> (\<forall>i < nch. node_map p1 (k + i)
        = Some \<lparr>title = fst (xs ! i), content = snd (xs ! i), node_type = ''chapter'',
                node_id = k + i, parent_id = Some r, children = [],
                page_number = [n], metadata = []\<rparr>)
    \<and> (\<forall>j. j \<noteq> r \<and> j < k \<longrightarrow> node_map p1 j = node_map (proc b) j)"
    using attach_all_nodes[OF fr r(2), of "''chapter''" n xs] unfolding p1_def lenx k_def .
  have fr1: "fresh p1" unfolding p1_def using attach_all_fresh[OF fr] .
  have sn1: "node_map p1 sec = Some sn" using n1 sec_r sec_k sn by simp
  have n3: "uuid_count p3 = k + nch + length long
    \<and> node_map p3 sec = Some (sn\<lparr>children := children sn @ [k + nch ..< k + nch + length long]\<rparr>)
    \<and> (\<forall>i < length long. node_map p3 (k + nch + i)
        = Some \<lparr>title = fst (ys ! i), content = snd (ys ! i), node_type = ''leaf'',
                node_id = k + nch + i, parent_id = Some sec, children = [],
                page_number = [n], metadata = []\<rparr>)
    \<and> (\<forall>j. j \<noteq> sec \<and> j < k + nch \<longrightarrow> node_map p3 j = node_map p1 j)"
    using attach_all_nodes[OF fr1 sn1, of "''leaf''" n ys] n1 unfolding p3_def leny by simp
  have nthy: "\<And>i. i < length long \<Longrightarrow> fst (ys ! i) = ''Content from page '' @ str_nat n \<and> snd (ys ! i) = Some (long ! i)"
    by (simp add: ys_def)
  have chap: "\<exists>nd. node_map p3 (k + i) = Some nd \<and> node_type nd = ''chapter'' \<and> children nd = []"
    if "i < nch" for i
  proof -
    have "k + i \<noteq> sec \<and> k + i < k + nch" using that sec_k by simp
    then have "node_map p3 (k + i) = node_map p1 (k + i)" using n3 by blast
    then show ?thesis using n1 that by simp
  qed
  have root3: "node_map p3 r = Some (rn\<lparr>children := children rn @ [k ..< k + nch]\<rparr>)"
  proof -
    have "r \<noteq> sec \<and> r < k + nch" using sec_r sec_k by simp
    then have "node_map p3 r = node_map p1 r" using n3 by blast
    then show ?thesis using n1 by simp
  qed
  have rt3: "root p3 = Some r" using r(1) by (simp add: p3_def p1_def)
  have pp: "process_page n pc b
              = \<lparr>proc = p3, current_chapter = Some (k + nch - 1), current_section = Some sec\<rparr>"
    using process_page_eq(1)[OF assms(1), of n pc] eff by simp
  have leaves: "\<forall>i < length long. node_map p3 (k + nch + i)
                  = Some \<lparr>title = ''Content from page '' @ str_nat n, content = Some (long ! i),
                          node_type = ''leaf'', node_id = k + nch + i, parent_id = Some sec,
                          children = [], page_number = [n], metadata = []\<rparr>"
    using n3 nthy by simp
  show ?thesis
    unfolding Let_def k_def[symmetric] cs_def[symmetric] nch_def[symmetric] long_def[symmetric] pp
    using n3 chap leaves sn root3 rt3 r(2) by simp
qed

theorem stale_section_receives_leaves_witness:
  "cursors_ok after_first_page \<and> current_section after_first_page = Some 2
   \<and> current_chapter after_first_page = Some 1
   \<and> finditer chapter_re None (page_text_of page_two) = [''B'']
   \<and> finditer section_re None (page_text_of page_two) = []
   \<and> current_chapter (process_page 2 page_two after_first_page) = Some 3
   \<and> current_section (process_page 2 page_two after_first_page) = Some 2
   \<and> map_option parent_id (node_map (proc (process_page 2 page_two after_first_page)) 4)
        = Some (Some 2)
   \<and> map_option children (node_map (proc (process_page 2 page_two after_first_page)) 3)
        = Some []"
proof -
  have cs: "finditer chapter_re None (page_text_of page_two) = [''B'']"
    and ss: "finditer section_re None (page_text_of page_two) = []"
    and long: "filter (\<lambda>para. 100 < length para) (paragraphs (page_text_of page_two))
                = [replicate 101 (CHR ''x'')]"
    using page_two_matches by simp_all
  have st: "current_section after_first_page = Some 2" "current_chapter after_first_page = Some 1"
    "uuid_count (proc after_first_page) = 3"
    using after_first_page_state by simp_all
  have ne: "finditer chapter_re None (page_text_of page_two) \<noteq> []" using cs by simp
  note inst = stale_section_receives_leaves[OF after_first_page_cursors_ok st(1) ne ss, of 2,
      unfolded Let_def cs long st(3)]
  have a: "current_chapter (process_page 2 page_two after_first_page) = Some 3"
    and b: "current_section (process_page 2 page_two after_first_page) = Some 2"
    using inst by simp_all
  have "\<forall>i < 1. node_map (proc (process_page 2 page_two after_first_page)) (3 + 1 + i)
          = Some \<lparr>title = ''Content from page '' @ str_nat 2,
                  content = Some ([replicate 101 (CHR ''x'')] ! i),
                  node_type = ''leaf'', node_id = 3 + 1 + i, parent_id = Some 2,
                  children = [], page_number = [2], metadata = []\<rparr>"
    using inst by simp
  then have c: "map_option parent_id (node_map (proc (process_page 2 page_two after_first_page)) 4)
        = Some (Some 2)" by simp
  have "\<forall>i < 1. \<exists>nd. node_map (proc (process_page 2 page_two after_first_page)) (3 + i) = Some nd
                   \<and> node_type nd = ''chapter'' \<and> children nd = []"
    using inst by simp
  then have d: "map_option children (node_map (proc (process_page 2 page_two after_first_page)) 3)
        = Some []" by auto
  show ?thesis using after_first_page_cursors_ok st(1,2) cs ss a b c d by simp
qed



text \<open>
  C7. The section that is current when the builder reaches the paragraphs of a page is the
  section cursor as the section headings of the page have left it, and the loop over the
  paragraphs does not move it: it is \<open>current_section\<close> after the page. With that section
  current, the page creates one leaf for each trimmed paragraph that is longer than 100
  characters, in order, with the paragraph as its content and the section as its parent,
  and none for a paragraph of 100 characters or fewer: after the chapters and sections of
  the page, which are not leaves, the new nodes are exactly the leaves for the paragraphs
  \<open>long\<close>, appended to the children of the section. With no section current the page
  creates no leaf at all.
\<close>

theorem leaf_iff_longer_than_100:
  assumes "cursors_ok b"
  shows "let b' = process_page n pc b;
             long = filter (\<lambda>para. 100 < length para) (paragraphs (page_text_of pc));
             k = uuid_count (proc b) + length (finditer chapter_re None (page_text_of pc))
                   + (case current_chapter b' of
                        None \<Rightarrow> 0
                      | Some ch \<Rightarrow> length (finditer section_re None (page_text_of pc)))
         in (\<forall>i. uuid_count (proc b) \<le> i \<and> i < k \<longrightarrow>
                (\<exists>nd. node_map (proc b') i = Some nd \<and> node_type nd \<noteq> ''leaf''))
            \<and> (case current_section b' of
                  None \<Rightarrow> uuid_count (proc b') = k
                | Some sec \<Rightarrow>
                    uuid_count (proc b') = k + length long
                    \<and> (\<forall>i < length long. node_map (proc b') (k + i)
                          = Some \<lparr>title = ''Content from page '' @ str_nat n,
                                  content = Some (long ! i), node_type = ''leaf'',
                                  node_id = k + i, parent_id = Some sec, children = [],
                                  page_number = [n], metadata = []\<rparr>)
                    \<and> (\<exists>sn cs. node_map (proc b') sec = Some sn \<and> node_type sn = ''section''
                           \<and> children sn = cs @ [k ..< k + length long]
                           \<and> (\<forall>c \<in> set cs. c < k)))"
proof -
  let ?text = "page_text_of pc"
  from assms obtain r where r: "root (proc b) = Some r" "has_type (proc b) ''root'' r"
    by (auto simp: cursors_ok_def)
  have wf0: "wf (proc b)" using assms by (simp add: cursors_ok_def)
  define u where "u = uuid_count (proc b)"
  define cs where "cs = finditer chapter_re None ?text"
  define long where "long = filter (\<lambda>para. 100 < length para) (paragraphs ?text)"
  define xs1 where "xs1 = map (\<lambda>t. (''Chapter: '' @ t, None :: string option)) cs"
  define p1 where "p1 = attach_all r ''chapter'' n xs1 (proc b)"
  define ch1 where "ch1 = last_created (current_chapter b) (uuid_count (proc b)) (length cs)"
  define ss where "ss = (case ch1 of None \<Rightarrow> [] | Some ch \<Rightarrow> finditer section_re None ?text)"
  define xs2 where "xs2 = map (\<lambda>t. (''Section: '' @ t, None :: string option)) ss"
  define p2 where "p2 = (case ch1 of None \<Rightarrow> p1 | Some ch \<Rightarrow> attach_all ch ''section'' n xs2 p1)"
  define sec2 where "sec2 = last_created (current_section b) (uuid_count p1) (length ss)"
  define xs3 where "xs3 = map (\<lambda>para. (''Content from page '' @ str_nat n, Some para)) long"
  define p3 where "p3 = (case sec2 of None \<Rightarrow> p2 | Some s \<Rightarrow> attach_all s ''leaf'' n xs3 p2)"
  define k where "k = u + length cs + length ss"
  have eff: "page_effect n ?text b = \<lparr>proc = p3, current_chapter = ch1, current_section = sec2\<rparr>"
    using r(1)
    unfolding p3_def xs3_def long_def sec2_def p2_def xs2_def ss_def ch1_def p1_def xs1_def cs_def
    by (simp add: page_effect_def Let_def cong: option.case_cong)
  have pp: "process_page n pc b = \<lparr>proc = p3, current_chapter = ch1, current_section = sec2\<rparr>"
    using process_page_eq(1)[OF assms, of n pc] eff by simp
  have kk: "u + length cs + (case ch1 of None \<Rightarrow> 0 | Some ch \<Rightarrow> length (finditer section_re None ?text)) = k"
    unfolding k_def ss_def by (cases ch1) simp_all
  \<comment> \<open>the chapter stage\<close>
  have fr0: "fresh (proc b)" using wf_fresh[OF wf0] .
  have wf1: "wf p1" unfolding p1_def
    using attach_all_wf[OF wf0 r(2)] by (simp add: child_type_of_def)
  have cnt1: "uuid_count p1 = u + length cs"
    unfolding p1_def u_def using attach_all_count[OF fr0 r(2)] by (simp add: xs1_def)
  have new1: "has_type p1 ''chapter'' i" if "u \<le> i" "i < u + length cs" for i
    using attach_all_new_types[OF fr0 r(2), of i "''chapter''" n xs1] that cnt1
    unfolding p1_def u_def by simp
  have ch1: "\<forall>c. ch1 = Some c \<longrightarrow> has_type p1 ''chapter'' c"
    unfolding p1_def ch1_def
    using last_created_has_type[OF fr0 r(2), of "current_chapter b" "''chapter''" xs1 _ n]
      assms by (auto simp: cursors_ok_def xs1_def)
  have s1: "\<forall>s. current_section b = Some s \<longrightarrow> has_type p1 ''section'' s"
    unfolding p1_def
    using attach_all_has_type[OF fr0] assms by (auto simp: cursors_ok_def)
  \<comment> \<open>the section stage\<close>
  have fr1: "fresh p1" using wf_fresh[OF wf1] .
  have wf2: "wf p2"
  proof (cases ch1)
    case None
    then show ?thesis using wf1 by (simp add: p2_def)
  next
    case (Some ch)
    then have "has_type p1 ''chapter'' ch" using ch1 by simp
    then show ?thesis using attach_all_wf[OF wf1, of "''chapter''" ch "''section''"] Some
      by (simp add: child_type_of_def p2_def)
  qed
  have cnt2: "uuid_count p2 = k"
  proof (cases ch1)
    case None
    then show ?thesis using cnt1 by (simp add: p2_def k_def ss_def)
  next
    case (Some ch)
    then have "has_type p1 ''chapter'' ch" using ch1 by simp
    then show ?thesis
      using attach_all_count[OF fr1, of "''chapter''" ch "''section''" n xs2] Some cnt1
      by (simp add: p2_def k_def xs2_def)
  qed
  have keep2: "\<And>ty j. has_type p1 ty j \<Longrightarrow> has_type p2 ty j"
    using attach_all_has_type[OF fr1] by (cases ch1) (auto simp: p2_def)
  have new2: "has_type p2 ''section'' i" if "u + length cs \<le> i" "i < k" for i
  proof (cases ch1)
    case None
    then show ?thesis using that by (simp add: k_def ss_def)
  next
    case (Some ch)
    then have "has_type p1 ''chapter'' ch" using ch1 by simp
    then show ?thesis
      using attach_all_new_types[OF fr1, of "''chapter''" ch i "''section''" n xs2] that cnt1 cnt2 Some
      by (simp add: p2_def)
  qed
  have s2: "\<forall>s. sec2 = Some s \<longrightarrow> has_type p2 ''section'' s"
  proof (cases ch1)
    case None
    then show ?thesis using s1 by (simp add: last_created_def sec2_def ss_def p2_def)
  next
    case (Some ch)
    then have "has_type p1 ''chapter'' ch" using ch1 by simp
    then show ?thesis
      using last_created_has_type[OF fr1, of "''chapter''" ch "current_section b" "''section''" xs2 _ n]
        s1 Some by (auto simp: sec2_def p2_def xs2_def)
  qed
  have nonleaf2: "\<exists>ty. has_type p2 ty i \<and> ty \<noteq> ''leaf''" if "u \<le> i" "i < k" for i
  proof (cases "i < u + length cs")
    case True
    then have "has_type p2 ''chapter'' i" using keep2[OF new1] that by simp
    then show ?thesis by auto
  next
    case False
    then have "has_type p2 ''section'' i" using new2 that by simp
    then show ?thesis by auto
  qed
  \<comment> \<open>the leaf stage\<close>
  have fr2: "fresh p2" using wf_fresh[OF wf2] .
  have keep3: "\<And>ty j. has_type p2 ty j \<Longrightarrow> has_type p3 ty j"
    using attach_all_has_type[OF fr2] by (cases sec2) (auto simp: p3_def)
  have part1: "\<forall>i. u \<le> i \<and> i < k \<longrightarrow> (\<exists>nd. node_map p3 i = Some nd \<and> node_type nd \<noteq> ''leaf'')"
  proof (intro allI impI)
    fix i assume "u \<le> i \<and> i < k"
    then obtain ty where ty: "has_type p2 ty i" "ty \<noteq> ''leaf''" using nonleaf2 by blast
    have "has_type p3 ty i" using keep3[OF ty(1)] .
    then show "\<exists>nd. node_map p3 i = Some nd \<and> node_type nd \<noteq> ''leaf''"
      using ty(2) by (auto simp: has_type_def)
  qed
  have part2: "case sec2 of
                  None \<Rightarrow> uuid_count p3 = k
                | Some sec \<Rightarrow>
                    uuid_count p3 = k + length long
                    \<and> (\<forall>i < length long. node_map p3 (k + i)
                          = Some \<lparr>title = ''Content from page '' @ str_nat n,
                                  content = Some (long ! i), node_type = ''leaf'',
                                  node_id = k + i, parent_id = Some sec, children = [],
                                  page_number = [n], metadata = []\<rparr>)
                    \<and> (\<exists>sn cs. node_map p3 sec = Some sn \<and> node_type sn = ''section''
                           \<and> children sn = cs @ [k ..< k + length long]
                           \<and> (\<forall>c \<in> set cs. c < k))"
  proof (cases sec2)
    case None
    then show ?thesis using cnt2 by (simp add: p3_def)
  next
    case (Some sec)
    then obtain sn where sn: "node_map p2 sec = Some sn" "node_type sn = ''section''"
      using s2 by (auto simp: has_type_def)
    have p3: "p3 = attach_all sec ''leaf'' n xs3 p2" using Some by (simp add: p3_def)
    have len: "length xs3 = length long" by (simp add: xs3_def)
    note nodes = attach_all_nodes[OF fr2 sn(1), of "''leaf''" n xs3, folded p3, unfolded cnt2 len]
    have a: "uuid_count p3 = k + length long" using nodes by blast
    have b: "\<forall>i < length long. node_map p3 (k + i)
                          = Some \<lparr>title = ''Content from page '' @ str_nat n,
                                  content = Some (long ! i), node_type = ''leaf'',
                                  node_id = k + i, parent_id = Some sec, children = [],
                                  page_number = [n], metadata = []\<rparr>"
    proof (intro allI impI)
      fix i assume i: "i < length long"
      then have "node_map p3 (k + i)
        = Some \<lparr>title = fst (xs3 ! i), content = snd (xs3 ! i), node_type = ''leaf'',
                node_id = k + i, parent_id = Some sec, children = [],
                page_number = [n], metadata = []\<rparr>"
        using nodes by blast
      then show "node_map p3 (k + i)
                          = Some \<lparr>title = ''Content from page '' @ str_nat n,
                                  content = Some (long ! i), node_type = ''leaf'',
                                  node_id = k + i, parent_id = Some sec, children = [],
                                  page_number = [n], metadata = []\<rparr>"
        using i by (simp add: xs3_def)
    qed
    have c1: "node_map p3 sec = Some (sn\<lparr>children := children sn @ [k ..< k + length long]\<rparr>)"
      using nodes by blast
    have c2: "\<forall>c \<in> set (children sn). c < k"
      using wf_children_lt[OF wf2 sn(1)] cnt2 by simp
    have c: "\<exists>sn cs. node_map p3 sec = Some sn \<and> node_type sn = ''section''
                           \<and> children sn = cs @ [k ..< k + length long]
                           \<and> (\<forall>c \<in> set cs. c < k)"
      using c1 c2 sn(2) by (intro exI[of _ "sn\<lparr>children := children sn @ [k ..< k + length long]\<rparr>"]
          exI[of _ "children sn"]) simp
    show ?thesis using Some a b c by simp
  qed
  show ?thesis
    unfolding Let_def pp using part1 part2
    by (simp add: kk u_def[symmetric] cs_def[symmetric] long_def[symmetric]
          cong: option.case_cong)
qed

theorem leaf_iff_longer_than_100_witness:
  "cursors_ok after_first_page
   \<and> current_section (process_page 2 page_two after_first_page) = Some 2
   \<and> map length (paragraphs (page_text_of page_two)) = [12, 101, 100]
   \<and> uuid_count (proc (process_page 2 page_two after_first_page)) = 5
   \<and> node_map (proc (process_page 2 page_two after_first_page)) 4
       = Some \<lparr>title = ''Content from page '' @ str_nat 2,
               content = Some (replicate 101 (CHR ''x'')), node_type = ''leaf'', node_id = 4,
               parent_id = Some 2, children = [], page_number = [2], metadata = []\<rparr>
   \<and> (\<exists>sn cs. node_map (proc (process_page 2 page_two after_first_page)) 2 = Some sn
          \<and> node_type sn = ''section'' \<and> children sn = cs @ [4])
   \<and> (\<exists>nd. node_map (proc (process_page 2 page_two after_first_page)) 3 = Some nd
          \<and> node_type nd \<noteq> ''leaf'')"
proof -
  let ?b' = "process_page 2 page_two after_first_page"
  have cs: "finditer chapter_re None (page_text_of page_two) = [''B'']"
    and ss: "finditer section_re None (page_text_of page_two) = []"
    and long: "filter (\<lambda>para. 100 < length para) (paragraphs (page_text_of page_two))
                = [replicate 101 (CHR ''x'')]"
    and lens: "map length (paragraphs (page_text_of page_two)) = [12, 101, 100]"
    using page_two_matches by simp_all
  have u: "uuid_count (proc after_first_page) = 3" using after_first_page_state by simp
  have st: "current_chapter ?b' = Some 3" "current_section ?b' = Some 2"
    "uuid_count (proc ?b') = 5"
    using second_page_state by simp_all
  note inst = leaf_iff_longer_than_100[OF after_first_page_cursors_ok, of 2 page_two,
      unfolded Let_def cs ss long u st]
  have nonleaf: "\<forall>i. 3 \<le> i \<and> i < 4 \<longrightarrow> (\<exists>nd. node_map (proc ?b') i = Some nd \<and> node_type nd \<noteq> ''leaf'')"
    and leaves: "\<forall>i < 1. node_map (proc ?b') (4 + i)
                  = Some \<lparr>title = ''Content from page '' @ str_nat 2,
                          content = Some ([replicate 101 (CHR ''x'')] ! i), node_type = ''leaf'',
                          node_id = 4 + i, parent_id = Some 2, children = [],
                          page_number = [2], metadata = []\<rparr>"
    and sec: "\<exists>sn cs. node_map (proc ?b') 2 = Some sn \<and> node_type sn = ''section''
                \<and> children sn = cs @ [4 ..< 4 + 1] \<and> (\<forall>c \<in> set cs. c < 4)"
    using inst by simp_all
  have a: "node_map (proc ?b') 4
       = Some \<lparr>title = ''Content from page '' @ str_nat 2,
               content = Some (replicate 101 (CHR ''x'')), node_type = ''leaf'', node_id = 4,
               parent_id = Some 2, children = [], page_number = [2], metadata = []\<rparr>"
    using leaves by simp
  have b: "\<exists>sn cs. node_map (proc ?b') 2 = Some sn \<and> node_type sn = ''section''
             \<and> children sn = cs @ [4]"
    using sec by auto
  have c: "\<exists>nd. node_map (proc ?b') 3 = Some nd \<and> node_type nd \<noteq> ''leaf''"
    using nonleaf by simp
  show ?thesis using after_first_page_cursors_ok st(2,3) lens a b c by blast
qed

text \<open>
  C8. \<open>add_node\<close>, on a processor whose next identifier is not yet in the node index (the
  uniqueness of \<open>uuid4\<close>): it raises exactly when \<open>parent_id\<close> is not in the index, and then
  the index, the root and the identifier supply are as before; otherwise it returns the
  new node, which was not in the index, is now in it under its own identifier with the
  given fields, and has been appended to the children of the parent, every other entry
  being as before.
\<close>

theorem add_node_contract:
  assumes "node_map p (uuid_count p) = None"
  shows "case add_node parent t c ty p of
           (Inl e, p') \<Rightarrow>
             node_map p parent = None \<and> node_map p' = node_map p \<and> root p' = root p
             \<and> uuid_count p' = uuid_count p
         | (Inr nid, p') \<Rightarrow>
             (\<exists>pn. node_map p parent = Some pn
                \<and> node_map p' parent = Some (pn\<lparr>children := children pn @ [nid]\<rparr>))
             \<and> node_map p nid = None
             \<and> node_map p' nid =
                 Some \<lparr>title = t, content = c, node_type = ty, node_id = nid,
                       parent_id = Some parent, children = [], page_number = [],
                       metadata = []\<rparr>
             \<and> (\<forall>j. j \<noteq> parent \<and> j \<noteq> nid \<longrightarrow> node_map p' j = node_map p j)
             \<and> root p' = root p \<and> logs p' = logs p"
proof (cases "node_map p parent")
  case None
  then show ?thesis by (simp add: add_node_def logging_def)
next
  case (Some pn)
  then have "parent \<noteq> uuid_count p" using assms by auto
  then show ?thesis using Some assms by (simp add: add_node_def Let_def)
qed

theorem add_node_contract_witness:
  "node_map (proc (start_build ''T'' init_processor))
      (uuid_count (proc (start_build ''T'' init_processor))) = None
   \<and> fst (add_node 0 ''Chapter: A'' None ''chapter'' (proc (start_build ''T'' init_processor)))
        = Inr 1
   \<and> map_option children
        (node_map (snd (add_node 0 ''Chapter: A'' None ''chapter''
                          (proc (start_build ''T'' init_processor)))) 0) = Some [1]
   \<and> (\<exists>e. fst (add_node 7 ''Chapter: A'' None ''chapter'' (proc (start_build ''T'' init_processor)))
        = Inl e)
   \<and> node_map (snd (add_node 7 ''Chapter: A'' None ''chapter''
                       (proc (start_build ''T'' init_processor))))
        = node_map (proc (start_build ''T'' init_processor))"
proof -
  let ?p = "proc (start_build ''T'' init_processor)"
  have h: "node_map ?p (uuid_count ?p) = None"
    by (simp add: start_build_def init_processor_def)
  have a: "fst (add_node 0 ''Chapter: A'' None ''chapter'' ?p) = Inr 1"
    by (simp add: add_node_def start_build_def init_processor_def)
  have b: "\<exists>e. fst (add_node 7 ''Chapter: A'' None ''chapter'' ?p) = Inl e"
    by (simp add: add_node_def start_build_def init_processor_def)
  have c: "node_map ?p 0 \<noteq> None \<and> map_option children (node_map ?p 0) = Some []"
    by (simp add: start_build_def init_processor_def)
  show ?thesis
    using h a b c
      add_node_contract[OF h, of 0 "''Chapter: A''" None "''chapter''"]
      add_node_contract[OF h, of 7 "''Chapter: A''" None "''chapter''"]
    by (auto split: prod.splits sum.splits)
qed

text \<open>
  C9. \<open>process_textbooks\<close> returns for every list of paths: whatever a document raises ends
  in the \<open>except\<close> clause of the loop. With a recursion limit of at least 4 (the depth of a
  tree), the records written are exactly \<open>batch_records\<close>: for each document for which
  nothing fails, in the order of the list and under the name of the document, the whole
  tree that the builder makes of the text of that document, with the identifiers that are
  free at its turn; whatever fails for the other documents changes none of these records.
  Every such document has a tree, and for every other document the failure is logged.
\<close>

theorem batch_continues_past_failures:
  assumes "4 \<le> recursion_limit e"
  shows "let w' = process_textbooks e txt_paths output_dir w;
             good = filter (doc_ok e output_dir (ready_for e output_dir w)) txt_paths
         in written w' = written w
              @ batch_records e output_dir (ready_for e output_dir w) (uuid_count (wproc w))
                  txt_paths
            \<and> (\<forall>txt_path \<in> set good. \<exists>d. document_tree e txt_path = Some d
                  \<and> d_title d = stem e txt_path)
            \<and> map fst (written w') = map fst (written w) @ map (output_path_of e output_dir) good
            \<and> map (\<lambda>r. d_title (snd r)) (written w')
                = map (\<lambda>r. d_title (snd r)) (written w) @ map (stem e) good
            \<and> (\<forall>txt_path \<in> set txt_paths.
                  \<not> doc_ok e output_dir (ready_for e output_dir w) txt_path
                  \<longrightarrow> failure_logged txt_path w')"
proof -
  let ?w0 = "w\<lparr>wproc := (wproc w)\<lparr>root := None, node_map := Map.empty\<rparr>\<rparr>"
  have wf0: "wf (wproc ?w0)" by (simp add: wf_def fresh_def)
  have same: "ready_for e output_dir ?w0 = ready_for e output_dir w" "written ?w0 = written w"
    "uuid_count (wproc ?w0) = uuid_count (wproc w)"
    by (simp_all add: ready_for_def)
  have trees: "\<forall>txt_path \<in> set (filter (doc_ok e output_dir (ready_for e output_dir w)) txt_paths).
                 \<exists>d. document_tree e txt_path = Some d \<and> d_title d = stem e txt_path"
  proof
    fix txt_path
    assume "txt_path \<in> set (filter (doc_ok e output_dir (ready_for e output_dir w)) txt_paths)"
    then obtain content' where "read_text e txt_path = Inr content'"
      by (auto simp: doc_ok_def split: sum.splits)
    then show "\<exists>d. document_tree e txt_path = Some d \<and> d_title d = stem e txt_path"
      using document_tree_Some[OF assms] by blast
  qed
  show ?thesis
    using textbooks_loop_result[OF assms wf0, of output_dir txt_paths] trees
    unfolding process_textbooks_def Let_def same by blast
qed

theorem batch_continues_past_failures_witness:
  "4 \<le> recursion_limit example_env
   \<and> written (process_textbooks example_env [''a.txt'', ''missing.txt'', ''c.txt'']
                ''out'' empty_world)
       = [(''out/a_structure.json'',
           NodeDict ''a'' None ''root'' 0 None [] []
             [NodeDict ''Chapter: A'' None ''chapter'' 1 (Some 0) [1] [] []]),
          (''out/c_structure.json'',
           NodeDict ''c'' None ''root'' 2 None [] []
             [NodeDict ''Chapter: A'' None ''chapter'' 3 (Some 2) [1] []
                [NodeDict ''Section: S'' None ''section'' 4 (Some 3) [1] []
                   [NodeDict ''Content from page 2'' (Some (replicate 101 (CHR ''x''))) ''leaf'' 6
                      (Some 4) [2] [] []]],
              NodeDict ''Chapter: B'' None ''chapter'' 5 (Some 2) [2] [] []])]
   \<and> failure_logged ''missing.txt''
       (process_textbooks example_env [''a.txt'', ''missing.txt'', ''c.txt''] ''out'' empty_world)"
proof -
  have lim: "4 \<le> recursion_limit example_env" by (simp add: example_env_def)
  have start: "ready_for example_env ''out'' empty_world = True"
    "uuid_count (wproc empty_world) = 0" "written empty_world = []"
    by (simp_all add: ready_for_def example_env_def empty_world_def init_processor_def)
  have bad: "\<not> doc_ok example_env ''out'' True ''missing.txt''"
    by (simp add: doc_ok_def example_env_def)
  note inst = batch_continues_past_failures[OF lim,
      of "[''a.txt'', ''missing.txt'', ''c.txt'']" "''out''" empty_world,
      unfolded Let_def start example_batch_records]
  have "written (process_textbooks example_env [''a.txt'', ''missing.txt'', ''c.txt'']
                ''out'' empty_world)
       = [(''out/a_structure.json'',
           NodeDict ''a'' None ''root'' 0 None [] []
             [NodeDict ''Chapter: A'' None ''chapter'' 1 (Some 0) [1] [] []]),
          (''out/c_structure.json'',
           NodeDict ''c'' None ''root'' 2 None [] []
             [NodeDict ''Chapter: A'' None ''chapter'' 3 (Some 2) [1] []
                [NodeDict ''Section: S'' None ''section'' 4 (Some 3) [1] []
                   [NodeDict ''Content from page 2'' (Some (replicate 101 (CHR ''x''))) ''leaf'' 6
                      (Some 4) [2] [] []]],
              NodeDict ''Chapter: B'' None ''chapter'' 5 (Some 2) [2] [] []])]"
    using inst by simp
  moreover have "failure_logged ''missing.txt''
       (process_textbooks example_env [''a.txt'', ''missing.txt'', ''c.txt''] ''out'' empty_world)"
    using inst bad by simp
  ultimately show ?thesis using lim by blast
qed

text \<open>
  C10. In every tree the builder produces, the root has an empty \<open>page_number\<close> list and
  every chapter, section and leaf has a \<open>page_number\<close> list of exactly one element; these
  are the only node types, so no node ever holds a second page number.
\<close>

theorem page_number_root_empty_others_single:
  assumes "node_map (processor_after docs) i = Some nd"
  shows "(node_type nd = ''root'' \<and> page_number nd = [])
         \<or> (node_type nd \<in> {''chapter'', ''section'', ''leaf''} \<and> length (page_number nd) = 1)"
  using wf_node_ok[OF processor_after_wf assms] by (auto simp: node_ok_def)

theorem page_number_root_empty_others_single_witness:
  "node_map (processor_after [(''T'', two_page_text)]) 2 \<noteq> None
   \<and> node_type (the (node_map (processor_after [(''T'', two_page_text)]) 2)) = ''section''
   \<and> length (page_number (the (node_map (processor_after [(''T'', two_page_text)]) 2))) = 1
   \<and> parent_id (the (node_map (processor_after [(''T'', two_page_text)]) 4)) = Some 2
   \<and> page_number (the (node_map (processor_after [(''T'', two_page_text)]) 4)) = [2]"
  using two_page_nodes
    page_number_root_empty_others_single[of "[(''T'', two_page_text)]" 2
      "the (node_map (processor_after [(''T'', two_page_text)]) 2)"]
  by simp

end
